theory Spec2Isabelle
  imports Complex_Main "HOL-Library.AList"
begin

section \<open>Strings\<close>

text \<open>
  A string of the program is modelled as a \<open>string\<close>, the list of its code units, each an 8-bit
  character: the embedding covers the texts whose code units lie below U+0100. On these,
  \<open>is_space\<close> holds of the white space and line terminators of JavaScript (U+0009 to U+000D,
  U+0020 and the no-break space U+00A0), which \<open>trim\<close> strips from both ends, and
  \<open>toLowerCase\<close> maps the capitals \<open>A\<close>..\<open>Z\<close> and U+00C0..U+00DE (but the sign U+00D7) to their
  small letters, 32 code units further on, and leaves every other character alone.
\<close>

definition is_space :: "char \<Rightarrow> bool" where
  "is_space c \<longleftrightarrow>
     c \<in> set [CHR 0x09, CHR 0x0A, CHR 0x0B, CHR 0x0C, CHR 0x0D, CHR '' '', CHR 0xA0]"

definition trim :: "string \<Rightarrow> string" where
  "trim s = rev (dropWhile is_space (rev (dropWhile is_space s)))"

definition latin1_capitals :: string where
  "latin1_capitals =
     [CHR 0xC0, CHR 0xC1, CHR 0xC2, CHR 0xC3, CHR 0xC4, CHR 0xC5, CHR 0xC6, CHR 0xC7,
      CHR 0xC8, CHR 0xC9, CHR 0xCA, CHR 0xCB, CHR 0xCC, CHR 0xCD, CHR 0xCE, CHR 0xCF,
      CHR 0xD0, CHR 0xD1, CHR 0xD2, CHR 0xD3, CHR 0xD4, CHR 0xD5, CHR 0xD6,
      CHR 0xD8, CHR 0xD9, CHR 0xDA, CHR 0xDB, CHR 0xDC, CHR 0xDD, CHR 0xDE]"

definition latin1_smalls :: string where
  "latin1_smalls =
     [CHR 0xE0, CHR 0xE1, CHR 0xE2, CHR 0xE3, CHR 0xE4, CHR 0xE5, CHR 0xE6, CHR 0xE7,
      CHR 0xE8, CHR 0xE9, CHR 0xEA, CHR 0xEB, CHR 0xEC, CHR 0xED, CHR 0xEE, CHR 0xEF,
      CHR 0xF0, CHR 0xF1, CHR 0xF2, CHR 0xF3, CHR 0xF4, CHR 0xF5, CHR 0xF6,
      CHR 0xF8, CHR 0xF9, CHR 0xFA, CHR 0xFB, CHR 0xFC, CHR 0xFD, CHR 0xFE]"

definition lower_char :: "char \<Rightarrow> char" where
  "lower_char c =
     (case map_of (zip (''ABCDEFGHIJKLMNOPQRSTUVWXYZ'' @ latin1_capitals)
                       (''abcdefghijklmnopqrstuvwxyz'' @ latin1_smalls)) c of
        Some d \<Rightarrow> d
      | None \<Rightarrow> c)"

definition toLowerCase :: "string \<Rightarrow> string" where
  "toLowerCase s = map lower_char s"

section \<open>JavaScript values\<close>

text \<open>
  The values a parsed document is made of, with \<open>JUndefined\<close> for the result of reading a
  property that is not there. A number is a real: a document holds no \<open>NaN\<close>, and a literal
  that overflows to an infinity is left out.
\<close>

datatype jsvalue =
    JUndefined
  | JNull
  | JBool bool
  | JNum real
  | JStr string
  | JArr "jsvalue list"
  | JObj "(string \<times> jsvalue) list"

fun truthy :: "jsvalue \<Rightarrow> bool" where
  "truthy JUndefined = False"
| "truthy JNull = False"
| "truthy (JBool b) = b"
| "truthy (JNum r) = (r \<noteq> 0)"
| "truthy (JStr s) = (s \<noteq> [])"
| "truthy (JArr xs) = True"
| "truthy (JObj kvs) = True"

fun join_comma :: "string list \<Rightarrow> string" where
  "join_comma [] = []"
| "join_comma [s] = s"
| "join_comma (s # t # ss) = s @ '','' @ join_comma (t # ss)"

text \<open>
  \<open>String(value)\<close>, with \<open>None\<close> when the conversion throws a \<open>TypeError\<close>. The rendering of a
  number is a parameter \<open>numstr\<close>. An array is the comma-joined rendering of its elements,
  \<open>null\<close> and \<open>undefined\<close> elements rendering empty. An object of a parsed document renders as
  \<open>[object Object]\<close> through the inherited \<open>toString\<close>; when it carries a property \<open>toString\<close> of
  its own, which is no function, the conversion falls back on \<open>valueOf\<close>, which yields no
  primitive value, and throws.
\<close>

fun js_String :: "(real \<Rightarrow> string) \<Rightarrow> jsvalue \<Rightarrow> string option" where
  "js_String numstr JUndefined = Some ''undefined''"
| "js_String numstr JNull = Some ''null''"
| "js_String numstr (JBool b) = Some (if b then ''true'' else ''false'')"
| "js_String numstr (JNum r) = Some (numstr r)"
| "js_String numstr (JStr s) = Some s"
| "js_String numstr (JArr xs) =
     (if list_all (\<lambda>x. x = JUndefined \<or> x = JNull \<or> js_String numstr x \<noteq> None) xs
      then Some (join_comma
                   (map (\<lambda>x. if x = JUndefined \<or> x = JNull then []
                             else (case js_String numstr x of Some t \<Rightarrow> t | None \<Rightarrow> [])) xs))
      else None)"
| "js_String numstr (JObj kvs) =
     (if list_ex (\<lambda>kv. fst kv = ''toString'') kvs then None else Some ''[object Object]'')"

text \<open>
  A plain object used as a dictionary. \<open>own\<close> holds its own properties. Assigning the key
  \<open>__proto__\<close> on an object without such an own property does not create one: it installs the
  assigned array as the object's prototype, which \<open>proto\<close> records (\<open>None\<close> is the default
  prototype). Reading \<open>__proto__\<close> then yields that array, and the key is not enumerated.
\<close>

record jsobject =
  own :: "(string \<times> jsvalue) list"
  proto :: "string list option"

definition proto_key :: string where
  "proto_key = ''__proto__''"

definition empty_object :: jsobject where
  "empty_object = \<lparr>own = [], proto = None\<rparr>"

text \<open>\<open>Array.isArray(obj[k]) ? obj[k] : absent\<close>\<close>

definition obj_get_array :: "jsobject \<Rightarrow> string \<Rightarrow> jsvalue list option" where
  "obj_get_array obj k =
     (case map_of (own obj) k of
        Some (JArr xs) \<Rightarrow> Some xs
      | Some _ \<Rightarrow> None
      | None \<Rightarrow> if k = proto_key then map_option (map JStr) (proto obj) else None)"

text \<open>\<open>Array.isArray(obj[k]) ? obj[k] : []\<close>\<close>

definition selectionAt :: "jsobject \<Rightarrow> string \<Rightarrow> jsvalue list" where
  "selectionAt obj k = (case obj_get_array obj k of Some xs \<Rightarrow> xs | None \<Rightarrow> [])"

text \<open>\<open>obj[k] = xs\<close> for an array \<open>xs\<close> of strings\<close>

definition obj_set_array :: "jsobject \<Rightarrow> string \<Rightarrow> string list \<Rightarrow> jsobject" where
  "obj_set_array obj k xs =
     (if k = proto_key \<and> map_of (own obj) k = None then obj\<lparr>proto := Some xs\<rparr>
      else obj\<lparr>own := AList.update k (JArr (map JStr xs)) (own obj)\<rparr>)"

text \<open>\<open>delete obj[k]\<close>\<close>

definition obj_delete :: "jsobject \<Rightarrow> string \<Rightarrow> jsobject" where
  "obj_delete obj k = obj\<lparr>own := AList.delete k (own obj)\<rparr>"

text \<open>
  \<open>Object.entries(obj)\<close>, \<open>Object.keys(obj)\<close>: the own properties, each key once, in the
  order of their creation (JavaScript lists keys that are array indices first, which is left
  out: the selections are read by key).
\<close>

definition obj_entries :: "jsobject \<Rightarrow> (string \<times> jsvalue) list" where
  "obj_entries obj = AList.clearjunk (own obj)"

definition obj_keys :: "jsobject \<Rightarrow> string list" where
  "obj_keys obj = map fst (obj_entries obj)"

text \<open>
  The names every plain object inherits from \<open>Object.prototype\<close>: reading one of them from an
  object that has no such own property yields a built-in, which is truthy and is not an array.
\<close>

definition object_prototype_keys :: "string list" where
  "object_prototype_keys =
     [''constructor'', ''__defineGetter__'', ''__defineSetter__'', ''hasOwnProperty'',
      ''__lookupGetter__'', ''__lookupSetter__'', ''isPrototypeOf'', ''propertyIsEnumerable'',
      ''toString'', ''valueOf'', proto_key, ''toLocaleString'']"

section \<open>Data model\<close>

datatype jsnumber = Finite real | NaN | PosInfinity | NegInfinity

record button =
  button_id :: string
  button_text :: string
  button_to :: "string option"

record node =
  node_id :: string
  node_x :: real
  node_y :: real
  node_text :: string
  node_type :: string
  node_color :: "string option"
  node_buttons :: "button list"

record edge =
  edge_id :: string
  edge_from :: string
  edge_to :: "string option"
  edge_buttonId :: string
  edge_pendingX :: "jsnumber option"
  edge_pendingY :: "jsnumber option"

record ui =
  selectedNodeId :: "string option"
  activePath :: "string list"
  activeSelections :: jsobject

record graph =
  graph_id :: string
  graph_name :: string
  graph_version :: nat
  createdAt :: string
  updatedAt :: string
  nodes :: "node list"
  edges :: "edge list"
  ui :: ui

datatype validation_defect =
    RootNotObject
  | UnsupportedVersion real
  | NodesNotArray
  | EdgesNotArray

datatype error =
    ValidationError string validation_defect
  | TypeError

definition GRAPH_VERSION :: nat where
  "GRAPH_VERSION = 1"

definition DEFAULT_NODE_TYPE :: string where
  "DEFAULT_NODE_TYPE = ''xor''"

section \<open>Normalizing scalar fields\<close>

text \<open>
  \<open>normalizeNodeType(value)\<close> is \<open>String(value || '').trim().toLowerCase() === 'or' ? 'or' : 'xor'\<close>.
  \<open>normalizeNodeTypeText\<close> is the part after the conversion to a string; on a node of a graph,
  whose type is a string \<open>s\<close>, \<open>String(s || '')\<close> is \<open>s\<close> itself.
\<close>

definition normalizeNodeTypeText :: "string \<Rightarrow> string" where
  "normalizeNodeTypeText s = (if toLowerCase (trim s) = ''or'' then ''or'' else ''xor'')"

definition normalizeNodeType :: "(real \<Rightarrow> string) \<Rightarrow> jsvalue \<Rightarrow> error + string" where
  "normalizeNodeType numstr v =
     (case js_String numstr (if truthy v then v else JStr []) of
        None \<Rightarrow> Inl TypeError
      | Some s \<Rightarrow> Inr (normalizeNodeTypeText s))"

definition is_hex_digit :: "char \<Rightarrow> bool" where
  "is_hex_digit c \<longleftrightarrow> c \<in> set ''0123456789abcdef''"

definition normalizeHexColorText :: "string \<Rightarrow> string option" where
  "normalizeHexColorText v =
     (let raw = toLowerCase (trim v) in
      if raw = [] then None
      else if length raw = 7 \<and> hd raw = CHR ''#'' \<and> list_all is_hex_digit (tl raw) then Some raw
      else if length raw = 4 \<and> hd raw = CHR ''#'' \<and> list_all is_hex_digit (tl raw)
        then Some [CHR ''#'', raw ! 1, raw ! 1, raw ! 2, raw ! 2, raw ! 3, raw ! 3]
      else None)"

text \<open>\<open>normalizeHexColor\<close> on the colour of a node: \<open>null\<close> or a string\<close>

definition normalizeHexColor :: "string option \<Rightarrow> string option" where
  "normalizeHexColor v = (case v of None \<Rightarrow> None | Some s \<Rightarrow> normalizeHexColorText s)"

section \<open>Deriving the active path\<close>

text \<open>\<open>new Map(xs.map((x) => [x.id, x]))\<close>: a later entry replaces an earlier one\<close>

definition nodeById :: "node list \<Rightarrow> string \<Rightarrow> node option" where
  "nodeById ns = map_of (rev (map (\<lambda>n. (node_id n, n)) ns))"

definition edgeById :: "edge list \<Rightarrow> string \<Rightarrow> edge option" where
  "edgeById es = map_of (rev (map (\<lambda>e. (edge_id e, e)) es))"

definition has_node :: "node list \<Rightarrow> string \<Rightarrow> bool" where
  "has_node ns k \<longleftrightarrow> k \<in> set (map node_id ns)"

definition has_edge :: "edge list \<Rightarrow> string \<Rightarrow> bool" where
  "has_edge es k \<longleftrightarrow> k \<in> set (map edge_id es)"

definition getActiveSelections :: "graph \<Rightarrow> jsobject" where
  "getActiveSelections g = activeSelections (ui g)"

definition selectedEdgeIds :: "jsobject \<Rightarrow> node \<Rightarrow> string \<Rightarrow> jsvalue list" where
  "selectedEdgeIds selections nd nodeId =
     (let rawSelected = selectionAt selections nodeId
      in if node_type nd = ''xor'' then take 1 rawSelected else rawSelected)"

text \<open>
  The edge a selected entry leads along from \<open>nodeId\<close>, when the walk follows it: the entry is
  a string naming an edge that leaves \<open>nodeId\<close> and whose target is a node of the graph.
\<close>

definition followed :: "node list \<Rightarrow> edge list \<Rightarrow> string \<Rightarrow> jsvalue \<Rightarrow> (edge \<times> string) option" where
  "followed ns es nodeId x =
     (case x of
        JStr edgeId \<Rightarrow>
          (case edgeById es edgeId of
             None \<Rightarrow> None
           | Some e \<Rightarrow>
               (case edge_to e of
                  None \<Rightarrow> None
                | Some t \<Rightarrow> if edge_from e \<noteq> nodeId \<or> \<not> has_node ns t then None else Some (e, t)))
      | _ \<Rightarrow> None)"

function walk :: "node list \<Rightarrow> edge list \<Rightarrow> jsobject \<Rightarrow> string \<Rightarrow> string list \<Rightarrow> string list"
  and walk_selected ::
    "node list \<Rightarrow> edge list \<Rightarrow> jsobject \<Rightarrow> string \<Rightarrow> string list \<Rightarrow> jsvalue list \<Rightarrow> string list"
where
  "walk ns es selections nodeId stack =
     (case nodeById ns nodeId of
        None \<Rightarrow> []
      | Some nd \<Rightarrow>
          if nodeId \<in> set stack then [nodeId]
          else nodeId #
            walk_selected ns es selections nodeId (nodeId # stack)
              (selectedEdgeIds selections nd nodeId))"
| "walk_selected ns es selections nodeId nextStack [] = []"
| "walk_selected ns es selections nodeId nextStack (x # xs) =
     (case followed ns es nodeId x of
        None \<Rightarrow> walk_selected ns es selections nodeId nextStack xs
      | Some (e, t) \<Rightarrow>
          edge_id e # walk ns es selections t nextStack
            @ walk_selected ns es selections nodeId nextStack xs)"
  by pat_completeness auto

termination walk
proof (relation "measures
    [\<lambda>x. case x of
          Inl (ns, es, sel, n, stack) \<Rightarrow> card (set (map node_id ns) - set stack)
        | Inr (ns, es, sel, n, stack, xs) \<Rightarrow> card (set (map node_id ns) - set stack),
     \<lambda>x. case x of Inl _ \<Rightarrow> 0 | Inr (ns, es, sel, n, stack, xs) \<Rightarrow> Suc (length xs)]",
    goal_cases)
  case 1
  show ?case by simp
next
  case (2 ns es selections nodeId stack nd)
  from 2(1) have "nodeId \<in> set (map node_id ns)"
    unfolding nodeById_def by (auto dest!: map_of_SomeD)
  with 2(2) have "set (map node_id ns) - set (nodeId # stack)
      \<subset> set (map node_id ns) - set stack"
    by auto
  then have "card (set (map node_id ns) - set (nodeId # stack))
      < card (set (map node_id ns) - set stack)"
    by (intro psubset_card_mono) auto
  then show ?case by simp
qed auto

declare walk.simps [simp del]

text \<open>
  The loop \<open>xs.forEach((x) => { if (typeof x === 'string' && ok(x) && !acc.includes(x))
  acc.push(x) })\<close>, which both the selection rebuild and the pruning run.
\<close>

fun push_unique :: "(string \<Rightarrow> bool) \<Rightarrow> string list \<Rightarrow> jsvalue list \<Rightarrow> string list" where
  "push_unique ok acc [] = acc"
| "push_unique ok acc (JStr s # xs) =
     (if ok s \<and> s \<notin> set acc then push_unique ok (acc @ [s]) xs else push_unique ok acc xs)"
| "push_unique ok acc (_ # xs) = push_unique ok acc xs"

text \<open>
  \<open>activeNodeIds\<close> and \<open>activeEdgeIds\<close>: the entries of the path that are node ids, and those that
  are not node ids but edge ids.
\<close>

definition activeNodeIds :: "node list \<Rightarrow> string list \<Rightarrow> string \<Rightarrow> bool" where
  "activeNodeIds ns nextPath k \<longleftrightarrow> k \<in> set nextPath \<and> has_node ns k"

definition activeEdgeIds :: "node list \<Rightarrow> edge list \<Rightarrow> string list \<Rightarrow> string \<Rightarrow> bool" where
  "activeEdgeIds ns es nextPath k \<longleftrightarrow> k \<in> set nextPath \<and> \<not> has_node ns k \<and> has_edge es k"

text \<open>
  The body of the loop over \<open>Object.entries(selections)\<close>: the entry of \<open>prunedSelections\<close> that
  one entry of the selections gives rise to, if any.
\<close>

fun prunedEntry ::
  "node list \<Rightarrow> edge list \<Rightarrow> string list \<Rightarrow> string \<times> jsvalue \<Rightarrow> (string \<times> string list) option"
where
  "prunedEntry ns es nextPath (nodeId, JArr xs) =
     (if \<not> activeNodeIds ns nextPath nodeId then None
      else (let filtered = push_unique (activeEdgeIds ns es nextPath) [] xs
            in if filtered \<noteq> [] then Some (nodeId, filtered) else None))"
| "prunedEntry ns es nextPath (nodeId, _) = None"

definition assignEntry :: "(string \<times> string list) option \<Rightarrow> jsobject \<Rightarrow> jsobject" where
  "assignEntry entry obj = (case entry of Some (k, xs) \<Rightarrow> obj_set_array obj k xs | None \<Rightarrow> obj)"

definition pruneSelections :: "node list \<Rightarrow> edge list \<Rightarrow> string list \<Rightarrow> jsobject \<Rightarrow> jsobject" where
  "pruneSelections ns es nextPath selections =
     fold (\<lambda>entry prunedSelections. assignEntry (prunedEntry ns es nextPath entry) prunedSelections)
       (obj_entries selections) empty_object"

definition rebuildActivePathFromSelections :: "graph \<Rightarrow> graph" where
  "rebuildActivePathFromSelections g =
     (case nodes g of
        [] \<Rightarrow> g\<lparr>ui := (ui g)\<lparr>activePath := [], activeSelections := empty_object\<rparr>\<rparr>
      | n0 # _ \<Rightarrow>
          if node_id n0 = [] then
            g\<lparr>ui := (ui g)\<lparr>activePath := [], activeSelections := empty_object\<rparr>\<rparr>
          else
            (let selections = getActiveSelections g;
                 nextPath = walk (nodes g) (edges g) selections (node_id n0) []
             in g\<lparr>ui := (ui g)\<lparr>activePath := nextPath,
                   activeSelections := pruneSelections (nodes g) (edges g) nextPath selections\<rparr>\<rparr>))"

section \<open>The consistency enforcer\<close>

definition Number_isFinite :: "jsnumber option \<Rightarrow> bool" where
  "Number_isFinite v = (case v of Some (Finite r) \<Rightarrow> True | _ \<Rightarrow> False)"

text \<open>
  The callback of \<open>graph.edges.filter\<close>: \<open>None\<close> when the edge is dropped, the edge as the
  callback rewrites it when it is kept.
\<close>

definition sanitizeEdge :: "node list \<Rightarrow> edge \<Rightarrow> edge option" where
  "sanitizeEdge ns e =
     (if \<not> has_node ns (edge_from e) then None
      else (case edge_to e of
              Some t \<Rightarrow>
                if trim t \<noteq> [] then
                  (if has_node ns (trim t)
                   then Some (e\<lparr>edge_to := Some (trim t), edge_pendingX := None, edge_pendingY := None\<rparr>)
                   else None)
                else Some (e\<lparr>edge_to := None,
                       edge_pendingX := (if Number_isFinite (edge_pendingX e) then edge_pendingX e else None),
                       edge_pendingY := (if Number_isFinite (edge_pendingY e) then edge_pendingY e else None)\<rparr>)
            | None \<Rightarrow>
                Some (e\<lparr>edge_to := None,
                       edge_pendingX := (if Number_isFinite (edge_pendingX e) then edge_pendingX e else None),
                       edge_pendingY := (if Number_isFinite (edge_pendingY e) then edge_pendingY e else None)\<rparr>)))"

text \<open>\<open>outgoingByNode.get(nodeId) || []\<close>: the edges leaving the node, in the order of \<open>graph.edges\<close>\<close>

definition outgoingByNode :: "edge list \<Rightarrow> string \<Rightarrow> edge list" where
  "outgoingByNode es nodeId = filter (\<lambda>e. edge_from e = nodeId) es"

text \<open>
  \<open>buttonById\<close> maps a button id to a button object of \<open>node.buttons\<close>; the object is modelled by
  its position in the list, so that writing to it updates the list.
\<close>

definition buttonById :: "button list \<Rightarrow> string \<Rightarrow> nat option" where
  "buttonById bs = map_of (rev (zip (map button_id bs) [0..<length bs]))"

definition mirrorButton :: "edge \<Rightarrow> button \<Rightarrow> button" where
  "mirrorButton e b =
     (let b' = b\<lparr>button_to := (case edge_to e of Some t \<Rightarrow> if t \<noteq> [] then Some t else None
                                  | None \<Rightarrow> None)\<rparr>
      in if button_text b' = [] then b'\<lparr>button_text := ''Choice''\<rparr> else b')"

fun mirrorOutgoing :: "button list \<Rightarrow> (string \<Rightarrow> nat option) \<Rightarrow> edge list \<Rightarrow> button list" where
  "mirrorOutgoing bs byId [] = bs"
| "mirrorOutgoing bs byId (e # es) =
     (case byId (edge_buttonId e) of
        None \<Rightarrow>
          mirrorOutgoing
            (bs @ [mirrorButton e
                     \<lparr>button_id = edge_buttonId e, button_text = ''Choice'', button_to = edge_to e\<rparr>])
            (byId(edge_buttonId e \<mapsto> length bs)) es
      | Some i \<Rightarrow> mirrorOutgoing (bs[i := mirrorButton e (bs ! i)]) byId es)"

definition enforceNode :: "edge list \<Rightarrow> node \<Rightarrow> node" where
  "enforceNode es nd =
     (let outgoing = outgoingByNode es (node_id nd);
          mirrored = mirrorOutgoing (node_buttons nd) (buttonById (node_buttons nd)) outgoing;
          validButtonIds = set (map edge_buttonId outgoing)
      in nd\<lparr>node_type := normalizeNodeTypeText (node_type nd),
            node_color := normalizeHexColor (node_color nd),
            node_buttons := filter (\<lambda>b. button_id b \<in> validButtonIds) mirrored\<rparr>)"

text \<open>
  The selections read off the prior active path. \<open>derivedSelections\<close> is a plain object:
  for an edge whose source is named like an inherited property, \<open>derivedSelections[edge.from]\<close>
  is a built-in, so no array is stored and the call of \<open>includes\<close> on it throws.
\<close>

fun deriveSelections ::
  "edge list \<Rightarrow> (string \<times> string list) list \<Rightarrow> string list \<Rightarrow> error + (string \<times> string list) list"
where
  "deriveSelections es derivedSelections [] = Inr derivedSelections"
| "deriveSelections es derivedSelections (entry # rest) =
     (if \<not> has_edge es entry then deriveSelections es derivedSelections rest
      else (case edgeById es entry of
              None \<Rightarrow> deriveSelections es derivedSelections rest
            | Some e \<Rightarrow>
                if edge_from e \<in> set object_prototype_keys then Inl TypeError
                else
                  (let cur = (case map_of derivedSelections (edge_from e) of
                                None \<Rightarrow> [] | Some xs \<Rightarrow> xs)
                   in deriveSelections es
                        (AList.update (edge_from e)
                           (if edge_id e \<in> set cur then cur else cur @ [edge_id e])
                           derivedSelections)
                        rest)))"

definition selections_object :: "(string \<times> string list) list \<Rightarrow> jsobject" where
  "selections_object kvs = \<lparr>own = map (\<lambda>(k, xs). (k, JArr (map JStr xs))) kvs, proto = None\<rparr>"

text \<open>
  The body of the loop over \<open>graph.nodes\<close> that rebuilds the selections: the entry of
  \<open>normalizedSelections\<close> a node gives rise to, if any.
\<close>

definition validEdgeIds :: "node list \<Rightarrow> edge list \<Rightarrow> string \<Rightarrow> string list" where
  "validEdgeIds ns es nodeId =
     map edge_id
       (filter (\<lambda>e. case edge_to e of Some t \<Rightarrow> t \<noteq> [] \<and> has_node ns t | None \<Rightarrow> False)
          (outgoingByNode es nodeId))"

definition uniqueSelection :: "node list \<Rightarrow> edge list \<Rightarrow> jsobject \<Rightarrow> node \<Rightarrow> string list" where
  "uniqueSelection ns es sourceSelections nd =
     (let rawSelection = selectionAt sourceSelections (node_id nd);
          uniqueSelection =
            push_unique (\<lambda>k. k \<in> set (validEdgeIds ns es (node_id nd))) [] rawSelection
      in if node_type nd = ''xor'' \<and> length uniqueSelection > 1 then take 1 uniqueSelection
         else uniqueSelection)"

definition normalizedEntry ::
  "node list \<Rightarrow> edge list \<Rightarrow> jsobject \<Rightarrow> node \<Rightarrow> (string \<times> string list) option"
where
  "normalizedEntry ns es sourceSelections nd =
     (if uniqueSelection ns es sourceSelections nd \<noteq> []
      then Some (node_id nd, uniqueSelection ns es sourceSelections nd) else None)"

definition normalizeSelections :: "node list \<Rightarrow> edge list \<Rightarrow> jsobject \<Rightarrow> jsobject" where
  "normalizeSelections ns es sourceSelections =
     fold (\<lambda>nd normalizedSelections.
             assignEntry (normalizedEntry ns es sourceSelections nd) normalizedSelections)
       ns empty_object"

text \<open>
  \<open>enforceGraphConsistency(graph)\<close> repairs the graph in place; the model returns the repaired
  graph, or the exception the call ends with. \<open>enforceStructure\<close> is its first part, up to the
  assignment of \<open>graph.ui.selectedNodeId\<close>; \<open>sourceSelections\<close> chooses the basis of the
  selection rebuild.
\<close>

definition enforceStructure :: "graph \<Rightarrow> graph" where
  "enforceStructure g =
     (let es = List.map_filter (sanitizeEdge (nodes g)) (edges g);
          ns = map (enforceNode es) (nodes g)
      in g\<lparr>nodes := ns, edges := es,
           ui := (ui g)\<lparr>selectedNodeId :=
                    (case selectedNodeId (ui g) of
                       Some k \<Rightarrow> if has_node ns k then Some k else None
                     | None \<Rightarrow> None)\<rparr>\<rparr>)"

definition hasExplicitSelections :: "jsobject \<Rightarrow> bool" where
  "hasExplicitSelections currentSelections =
     list_ex (\<lambda>k. obj_get_array currentSelections k \<noteq> None) (obj_keys currentSelections)"

definition sourceSelections :: "graph \<Rightarrow> error + jsobject" where
  "sourceSelections g =
     (if hasExplicitSelections (getActiveSelections g) then Inr (getActiveSelections g)
      else map_sum id selections_object (deriveSelections (edges g) [] (activePath (ui g))))"

definition enforceGraphConsistency :: "graph \<Rightarrow> error + graph" where
  "enforceGraphConsistency g =
     (let g1 = enforceStructure g
      in case sourceSelections g1 of
           Inl err \<Rightarrow> Inl err
         | Inr src \<Rightarrow>
             Inr (rebuildActivePathFromSelections
                    (g1\<lparr>ui := (ui g1)\<lparr>activeSelections :=
                            normalizeSelections (nodes g1) (edges g1) src\<rparr>\<rparr>)))"

section \<open>Normalizing a document\<close>

text \<open>
  \<open>v && typeof v === 'object'\<close> and \<open>Array.isArray(v)\<close>, on the values a parsed document is
  made of.
\<close>

definition is_object :: "jsvalue \<Rightarrow> bool" where
  "is_object v = (case v of JArr xs \<Rightarrow> True | JObj kvs \<Rightarrow> True | _ \<Rightarrow> False)"

definition is_array :: "jsvalue \<Rightarrow> bool" where
  "is_array v = (case v of JArr xs \<Rightarrow> True | _ \<Rightarrow> False)"

definition elements :: "jsvalue \<Rightarrow> jsvalue list" where
  "elements v = (case v of JArr xs \<Rightarrow> xs | _ \<Rightarrow> [])"

text \<open>
  \<open>v.k\<close> and \<open>v?.k\<close> for the property names \<open>normalizeGraph\<close> reads, none of which is
  inherited or carried by an array: the own property of an object, \<open>undefined\<close> on every other
  value.
\<close>

definition js_prop :: "jsvalue \<Rightarrow> string \<Rightarrow> jsvalue" where
  "js_prop v k =
     (case v of
        JObj kvs \<Rightarrow> (case map_of kvs k of Some x \<Rightarrow> x | None \<Rightarrow> JUndefined)
      | _ \<Rightarrow> JUndefined)"

text \<open>\<open>typeof v === 'string' && v.trim() ? v.trim() : absent\<close>\<close>

definition trimmedString :: "jsvalue \<Rightarrow> string option" where
  "trimmedString v = (case v of JStr s \<Rightarrow> if trim s \<noteq> [] then Some (trim s) else None | _ \<Rightarrow> None)"

text \<open>\<open>Number.isFinite(v) ? v : absent\<close>\<close>

definition finiteNumber :: "jsvalue \<Rightarrow> real option" where
  "finiteNumber v = (case v of JNum r \<Rightarrow> Some r | _ \<Rightarrow> None)"

text \<open>\<open>String(n)\<close> for a natural number\<close>

fun decimal :: "nat \<Rightarrow> string" where
  "decimal n =
     (if n < 10 then [''0123456789'' ! n] else decimal (n div 10) @ [''0123456789'' ! (n mod 10)])"

declare decimal.simps [simp del]

text \<open>
  \<open>uid(prefix)\<close>: the identifiers come from a supply \<open>rnd\<close> of random texts, of which \<open>n\<close> have
  been drawn. \<open>untilUnused\<close> is the loop \<open>while (used.has(id)) id = uid(prefix)\<close>; it does not
  return when the supply keeps producing used identifiers.
\<close>

definition uid :: "(nat \<Rightarrow> string) \<Rightarrow> string \<Rightarrow> nat \<Rightarrow> string \<times> nat" where
  "uid rnd prefix n = (prefix @ ''_'' @ rnd n, Suc n)"

partial_function (option) untilUnused ::
  "(nat \<Rightarrow> string) \<Rightarrow> string \<Rightarrow> string list \<Rightarrow> string \<Rightarrow> nat \<Rightarrow> (string \<times> nat) option"
where
  "untilUnused rnd prefix used ident n =
     (if ident \<in> set used
      then untilUnused rnd prefix used (fst (uid rnd prefix n)) (snd (uid rnd prefix n))
      else Some (ident, n))"

declare untilUnused.simps [code]

text \<open>\<open>typeof v === 'string' && v.trim() ? v.trim() : uid(prefix)\<close>\<close>

definition idOrFresh :: "(nat \<Rightarrow> string) \<Rightarrow> string \<Rightarrow> jsvalue \<Rightarrow> nat \<Rightarrow> string \<times> nat" where
  "idOrFresh rnd prefix v n = (case trimmedString v of Some s \<Rightarrow> (s, n) | None \<Rightarrow> uid rnd prefix n)"

text \<open>The loop over \<open>rawNode.buttons\<close>, with \<open>buttons\<close> and \<open>buttonSet\<close> as they stand\<close>

fun normalizeButtons ::
  "(nat \<Rightarrow> string) \<Rightarrow> jsvalue list \<Rightarrow> button list \<Rightarrow> string list \<Rightarrow> nat \<Rightarrow> (button list \<times> nat) option"
where
  "normalizeButtons rnd [] buttons buttonSet n = Some (buttons, n)"
| "normalizeButtons rnd (rawButton # rest) buttons buttonSet n =
     (if \<not> is_object rawButton then normalizeButtons rnd rest buttons buttonSet n
      else
        (case untilUnused rnd ''b'' buttonSet
                (fst (idOrFresh rnd ''b'' (js_prop rawButton ''id'') n))
                (snd (idOrFresh rnd ''b'' (js_prop rawButton ''id'') n)) of
           None \<Rightarrow> None
         | Some (buttonId, n') \<Rightarrow>
             normalizeButtons rnd rest
               (buttons @
                  [\<lparr>button_id = buttonId,
                    button_text = (case trimmedString (js_prop rawButton ''text'') of
                                     Some s \<Rightarrow> s | None \<Rightarrow> ''Choice''),
                    button_to = trimmedString (js_prop rawButton ''to'')\<rparr>])
               (buttonSet @ [buttonId]) n'))"

text \<open>
  The loop over \<open>input.nodes\<close>, at position \<open>index\<close>, with \<open>graph.nodes\<close> and \<open>nodeIdSet\<close> as
  they stand. It ends with the \<open>TypeError\<close> of \<open>normalizeNodeType\<close> when a node's type has no
  rendering.
\<close>

fun normalizeNodes ::
  "(real \<Rightarrow> string) \<Rightarrow> (nat \<Rightarrow> string) \<Rightarrow> jsvalue list \<Rightarrow> nat \<Rightarrow> node list \<Rightarrow> string list \<Rightarrow> nat
     \<Rightarrow> (error + node list \<times> nat) option"
where
  "normalizeNodes numstr rnd [] index ns nodeIdSet n = Some (Inr (ns, n))"
| "normalizeNodes numstr rnd (rawNode # rest) index ns nodeIdSet n =
     (if \<not> is_object rawNode then normalizeNodes numstr rnd rest (Suc index) ns nodeIdSet n
      else
        (case untilUnused rnd ''n'' nodeIdSet
                (fst (idOrFresh rnd ''n'' (js_prop rawNode ''id'') n))
                (snd (idOrFresh rnd ''n'' (js_prop rawNode ''id'') n)) of
           None \<Rightarrow> None
         | Some (nodeId, n') \<Rightarrow>
             (case normalizeButtons rnd (elements (js_prop rawNode ''buttons'')) [] [] n' of
                None \<Rightarrow> None
              | Some (buttons, n'') \<Rightarrow>
                  (case normalizeNodeType numstr (js_prop rawNode ''type'') of
                     Inl err \<Rightarrow> Some (Inl err)
                   | Inr nodeType \<Rightarrow>
                  normalizeNodes numstr rnd rest (Suc index)
                    (ns @
                       [\<lparr>node_id = nodeId,
                         node_x = (case finiteNumber (js_prop rawNode ''x'') of
                                     Some r \<Rightarrow> r | None \<Rightarrow> 140 + real index * 30),
                         node_y = (case finiteNumber (js_prop rawNode ''y'') of
                                     Some r \<Rightarrow> r | None \<Rightarrow> 100 + real index * 30),
                         node_text = (case trimmedString (js_prop rawNode ''text'') of
                                        Some s \<Rightarrow> s | None \<Rightarrow> ''Node '' @ decimal (index + 1)),
                         node_type = nodeType,
                         node_color = normalizeHexColor
                                        (case js_prop rawNode ''color'' of JStr s \<Rightarrow> Some s | _ \<Rightarrow> None),
                         node_buttons = buttons\<rparr>])
                    (nodeIdSet @ [nodeId]) n''))))"

text \<open>The loop over \<open>input.edges\<close>, with \<open>graph.edges\<close> and \<open>edgeIdSet\<close> as they stand\<close>

fun normalizeEdges ::
  "(nat \<Rightarrow> string) \<Rightarrow> node list \<Rightarrow> jsvalue list \<Rightarrow> edge list \<Rightarrow> string list \<Rightarrow> nat
     \<Rightarrow> (edge list \<times> nat) option"
where
  "normalizeEdges rnd ns [] es edgeIdSet n = Some (es, n)"
| "normalizeEdges rnd ns (rawEdge # rest) es edgeIdSet n =
     (if \<not> is_object rawEdge then normalizeEdges rnd ns rest es edgeIdSet n
      else
        (case js_prop rawEdge ''from'' of
           JStr src \<Rightarrow>
             (let fromId = trim src;
                  toId = trimmedString (js_prop rawEdge ''to'')
              in if fromId = [] then normalizeEdges rnd ns rest es edgeIdSet n
                 else if \<not> list_ex (\<lambda>nd. node_id nd = fromId) ns
                   then normalizeEdges rnd ns rest es edgeIdSet n
                 else if (case toId of Some t \<Rightarrow> \<not> list_ex (\<lambda>nd. node_id nd = t) ns | None \<Rightarrow> False)
                   then normalizeEdges rnd ns rest es edgeIdSet n
                 else
                   (case untilUnused rnd ''e'' edgeIdSet
                           (fst (idOrFresh rnd ''e'' (js_prop rawEdge ''id'') n))
                           (snd (idOrFresh rnd ''e'' (js_prop rawEdge ''id'') n)) of
                      None \<Rightarrow> None
                    | Some (edgeId, n') \<Rightarrow>
                        normalizeEdges rnd ns rest
                          (es @
                             [\<lparr>edge_id = edgeId, edge_from = fromId, edge_to = toId,
                               edge_buttonId = fst (idOrFresh rnd ''b'' (js_prop rawEdge ''buttonId'') n'),
                               edge_pendingX = map_option Finite (finiteNumber (js_prop rawEdge ''pendingX'')),
                               edge_pendingY = map_option Finite (finiteNumber (js_prop rawEdge ''pendingY''))\<rparr>])
                          (edgeIdSet @ [edgeId])
                          (snd (idOrFresh rnd ''b'' (js_prop rawEdge ''buttonId'') n'))))
         | _ \<Rightarrow> normalizeEdges rnd ns rest es edgeIdSet n))"

text \<open>The four checks at the head of \<open>normalizeGraph\<close>: the error thrown, if any\<close>

definition validateRoot :: "jsvalue \<Rightarrow> string \<Rightarrow> error option" where
  "validateRoot input sourceLabel =
     (if \<not> is_object input then Some (ValidationError sourceLabel RootNotObject)
      else
        (case (case js_prop input ''version'' of
                 JNum v \<Rightarrow> if v > real GRAPH_VERSION then Some v else None
               | _ \<Rightarrow> None) of
           Some v \<Rightarrow> Some (ValidationError sourceLabel (UnsupportedVersion v))
         | None \<Rightarrow>
             if \<not> is_array (js_prop input ''nodes'') then Some (ValidationError sourceLabel NodesNotArray)
             else if \<not> is_array (js_prop input ''edges'') then Some (ValidationError sourceLabel EdgesNotArray)
             else None))"

text \<open>The \<open>ui\<close> sub-state \<open>normalizeGraph\<close> starts from\<close>

definition normalizeUi :: "jsvalue \<Rightarrow> ui" where
  "normalizeUi raw =
     \<lparr>selectedNodeId = (case js_prop raw ''selectedNodeId'' of JStr s \<Rightarrow> Some s | _ \<Rightarrow> None),
      activePath = List.map_filter (\<lambda>entry. case entry of JStr s \<Rightarrow> Some s | _ \<Rightarrow> None)
                     (elements (js_prop raw ''activePath'')),
      activeSelections = (case js_prop raw ''activeSelections'' of
                            JObj kvs \<Rightarrow> \<lparr>own = kvs, proto = None\<rparr>
                          | _ \<Rightarrow> empty_object)\<rparr>"

text \<open>
  \<open>normalizeGraph(input, sourceLabel)\<close>: \<open>None\<close> when a loop for an unused identifier does not
  return, the exception thrown or the graph returned otherwise. \<open>clock\<close> gives the results of
  the calls of \<open>nowISO()\<close>.
\<close>

definition normalizeGraph ::
  "(real \<Rightarrow> string) \<Rightarrow> (nat \<Rightarrow> string) \<Rightarrow> (nat \<Rightarrow> string) \<Rightarrow> jsvalue \<Rightarrow> string \<Rightarrow> (error + graph) option"
where
  "normalizeGraph numstr rnd clock input sourceLabel =
     (case validateRoot input sourceLabel of
        Some err \<Rightarrow> Some (Inl err)
      | None \<Rightarrow>
          (let (gid, n0) = (case js_prop input ''id'' of
                              JStr s \<Rightarrow> if s \<noteq> [] then (s, 0) else uid rnd ''g'' 0
                            | _ \<Rightarrow> uid rnd ''g'' 0);
               (created, t0) = (case js_prop input ''createdAt'' of
                                  JStr s \<Rightarrow> (s, 0) | _ \<Rightarrow> (clock 0, Suc 0));
               updated = (case js_prop input ''updatedAt'' of JStr s \<Rightarrow> s | _ \<Rightarrow> clock t0)
           in case normalizeNodes numstr rnd (elements (js_prop input ''nodes'')) 0 [] [] n0 of
                None \<Rightarrow> None
              | Some (Inl err) \<Rightarrow> Some (Inl err)
              | Some (Inr (ns, n1)) \<Rightarrow>
                  (let (ns', n2) =
                         (if ns = []
                          then ([\<lparr>node_id = fst (uid rnd ''n'' n1), node_x = 220, node_y = 120,
                                   node_text = ''Start'', node_type = DEFAULT_NODE_TYPE,
                                   node_color = None, node_buttons = []\<rparr>],
                                snd (uid rnd ''n'' n1))
                          else (ns, n1))
                   in case normalizeEdges rnd ns' (elements (js_prop input ''edges'')) [] [] n2 of
                        None \<Rightarrow> None
                      | Some (es, n3) \<Rightarrow>
                          Some (enforceGraphConsistency
                                  \<lparr>graph_id = gid,
                                   graph_name = (case trimmedString (js_prop input ''name'') of
                                                   Some s \<Rightarrow> s | None \<Rightarrow> ''Untitled Graph''),
                                   graph_version = GRAPH_VERSION,
                                   createdAt = created, updatedAt = updated,
                                   nodes = ns', edges = es,
                                   ui = normalizeUi (js_prop input ''ui'')\<rparr>))))"

section \<open>The selection model\<close>

record app_state =
  currentGraph :: "graph option"
  selectedEdgeId :: "string option"
  selectedEdgeSelectionSource :: "string option"
  pendingChoice :: "string option"
  lastChosenEdgeId :: "string option"
  lastChosenNodeId :: "string option"

record selection_result =
  result_edge :: edge
  result_sourceNodeType :: string
  result_edgeIsSelected :: bool

text \<open>
  The last two statements of \<open>enforceGraphConsistency\<close> act on the editor state, not on the
  graph: a selected edge that is gone is deselected, and a pending choice (kept here as its
  \<open>sourceNodeId\<close>) whose source node is gone is dropped.
\<close>

definition enforceStaleReferences :: "app_state \<Rightarrow> graph \<Rightarrow> app_state" where
  "enforceStaleReferences st g =
     (let st1 = (case selectedEdgeId st of
                   Some k \<Rightarrow> if k \<noteq> [] \<and> \<not> has_edge (edges g) k
                             then st\<lparr>selectedEdgeId := None, selectedEdgeSelectionSource := None\<rparr>
                             else st
                 | None \<Rightarrow> st)
      in case pendingChoice st1 of
           Some src \<Rightarrow> if \<not> has_node (nodes g) src then st1\<lparr>pendingChoice := None\<rparr> else st1
         | None \<Rightarrow> st1)"

definition findNode :: "graph \<Rightarrow> string \<Rightarrow> node option" where
  "findNode g nodeId = find (\<lambda>n. node_id n = nodeId) (nodes g)"

definition findEdge :: "graph \<Rightarrow> string \<Rightarrow> edge option" where
  "findEdge g edgeId = find (\<lambda>e. edge_id e = edgeId) (edges g)"

definition edgeHasTarget :: "edge \<Rightarrow> bool" where
  "edgeHasTarget e = (case edge_to e of Some t \<Rightarrow> trim t \<noteq> [] | None \<Rightarrow> False)"

text \<open>The branch of \<open>applyTypedEdgeSelection\<close> that rewrites \<open>selections[sourceNode.id]\<close>\<close>

definition toggleSelection :: "jsobject \<Rightarrow> string \<Rightarrow> string \<Rightarrow> string \<Rightarrow> jsobject \<times> bool" where
  "toggleSelection selections sourceNodeType nodeId edgeId =
     (let currentSelection = push_unique (\<lambda>k. k \<noteq> []) [] (selectionAt selections nodeId)
      in if sourceNodeType = ''or'' then
           (if edgeId \<in> set currentSelection then
              (let nextSelection = filter (\<lambda>k. k \<noteq> edgeId) currentSelection
               in if nextSelection \<noteq> [] then (obj_set_array selections nodeId nextSelection, False)
                  else (obj_delete selections nodeId, False))
            else (obj_set_array selections nodeId (currentSelection @ [edgeId]), True))
         else
           (if currentSelection = [edgeId] then (obj_delete selections nodeId, False)
            else (obj_set_array selections nodeId [edgeId], True)))"

definition clearStaleChoice :: "string list \<Rightarrow> string option \<Rightarrow> string option" where
  "clearStaleChoice path v =
     (case v of Some k \<Rightarrow> if k \<noteq> [] \<and> k \<notin> set path then None else Some k | None \<Rightarrow> None)"

definition applyTypedEdgeSelection :: "app_state \<Rightarrow> string \<Rightarrow> selection_result option \<times> app_state" where
  "applyTypedEdgeSelection st edgeId =
     (case currentGraph st of
        None \<Rightarrow> (None, st)
      | Some g \<Rightarrow>
          (case findEdge g edgeId of
             None \<Rightarrow> (None, st)
           | Some e \<Rightarrow>
               if \<not> edgeHasTarget e then (None, st)
               else
                 (case findNode g (edge_from e) of
                    None \<Rightarrow> (None, st)
                  | Some sourceNode \<Rightarrow>
                      (let sourceNodeType = normalizeNodeTypeText (node_type sourceNode);
                           (selections, isSelected) =
                             toggleSelection (getActiveSelections g) sourceNodeType
                               (node_id sourceNode) (edge_id e);
                           g' = rebuildActivePathFromSelections
                                  (g\<lparr>ui := (ui g)\<lparr>activeSelections := selections\<rparr>\<rparr>);
                           chosenEdge =
                             (if isSelected then Some (edge_id e)
                              else if lastChosenEdgeId st = Some (edge_id e) then None
                              else lastChosenEdgeId st);
                           chosenNode =
                             (if isSelected then edge_to e
                              else if lastChosenNodeId st = edge_to e then None
                              else lastChosenNodeId st)
                       in (Some \<lparr>result_edge = e, result_sourceNodeType = sourceNodeType,
                                  result_edgeIsSelected = isSelected\<rparr>,
                           st\<lparr>currentGraph := Some g',
                              lastChosenEdgeId := clearStaleChoice (activePath (ui g')) chosenEdge,
                              lastChosenNodeId := clearStaleChoice (activePath (ui g')) chosenNode\<rparr>)))))"

section \<open>Auxiliary notions\<close>

text \<open>
  An object built by assignments to a fresh \<open>{}\<close>: its keys are distinct and \<open>__proto__\<close>
  is not among its own properties.
\<close>

definition plain_object :: "jsobject \<Rightarrow> bool" where
  "plain_object obj \<longleftrightarrow> distinct (map fst (own obj)) \<and> proto_key \<notin> fst ` set (own obj)"

text \<open>
  Notions for the button mirroring. \<open>mirrorStep\<close> is one round of the loop over the outgoing
  edges, on the list of buttons alone; \<open>onLastOfId g\<close> applies \<open>g\<close> to every button that is the
  last one of its id in the list; \<open>lastEdgeFor\<close> is the last outgoing edge of a button id;
  \<open>synthesized\<close> are the buttons the loop appends.
\<close>

definition mirrorStep :: "edge \<Rightarrow> button list \<Rightarrow> button list" where
  "mirrorStep e bs =
     (case buttonById bs (edge_buttonId e) of
        None \<Rightarrow> bs @ [mirrorButton e \<lparr>button_id = edge_buttonId e, button_text = ''Choice'', button_to = edge_to e\<rparr>]
      | Some i \<Rightarrow> bs[i := mirrorButton e (bs ! i)])"

fun onLastOfId :: "(button \<Rightarrow> button) \<Rightarrow> button list \<Rightarrow> button list" where
  "onLastOfId g [] = []"
| "onLastOfId g (x # xs) = (if button_id x \<in> button_id ` set xs then x else g x) # onLastOfId g xs"

definition lastEdgeFor :: "edge list \<Rightarrow> string \<Rightarrow> edge option" where
  "lastEdgeFor out b = List.find (\<lambda>e. edge_buttonId e = b) (rev out)"

definition mirrorAll :: "edge list \<Rightarrow> button \<Rightarrow> button" where
  "mirrorAll out x = (case lastEdgeFor out (button_id x) of None \<Rightarrow> x | Some e \<Rightarrow> mirrorButton e x)"

definition synthesizedFor :: "edge \<Rightarrow> button" where
  "synthesizedFor e = mirrorButton e \<lparr>button_id = edge_buttonId e, button_text = ''Choice'', button_to = edge_to e\<rparr>"

definition newButtonIds :: "edge list \<Rightarrow> button list \<Rightarrow> string list" where
  "newButtonIds out bs =
     rev (remdups (rev (filter (\<lambda>b. b \<notin> button_id ` set bs) (map edge_buttonId out))))"

definition synthesized :: "edge list \<Rightarrow> button list \<Rightarrow> button list" where
  "synthesized out bs = map (\<lambda>b. synthesizedFor (the (lastEdgeFor out b))) (newButtonIds out bs)"

definition backed :: "edge list \<Rightarrow> button \<Rightarrow> bool" where
  "backed out x \<longleftrightarrow> button_id x \<in> edge_buttonId ` set out"

text \<open>
  Notions for the second pass: a string of the form \<open>#rrggbb\<close> with lower-case digits, which the
  color normalization returns unchanged, and the edges the walk follows from a node.
\<close>

definition is_hex_color :: "string \<Rightarrow> bool" where
  "is_hex_color w \<longleftrightarrow> length w = 7 \<and> hd w = CHR ''#'' \<and> list_all is_hex_digit (tl w)"

definition followedAt :: "node list \<Rightarrow> edge list \<Rightarrow> jsobject \<Rightarrow> string \<Rightarrow> node \<Rightarrow> (edge \<times> string) list" where
  "followedAt ns es sel n nd = List.map_filter (followed ns es n) (selectedEdgeIds sel nd n)"

text \<open>
  The selections after \<open>applyTypedEdgeSelection\<close> has toggled the choice \<open>eid\<close> of the XOR node
  \<open>k\<close> and rebuilt the path from the root \<open>r\<close>.
\<close>

definition xorToggled :: "node list \<Rightarrow> edge list \<Rightarrow> string \<Rightarrow> string \<Rightarrow> string \<Rightarrow> jsobject \<Rightarrow> jsobject" where
  "xorToggled ns es r k eid s =
     (let s' = fst (toggleSelection s ''xor'' k eid)
      in pruneSelections ns es (walk ns es s' r []) s')"

section \<open>Example graphs\<close>

definition mk_node :: "string \<Rightarrow> string \<Rightarrow> button list \<Rightarrow> node" where
  "mk_node i t bs =
     \<lparr>node_id = i, node_x = 220, node_y = 120, node_text = ''Start'', node_type = t,
      node_color = None, node_buttons = bs\<rparr>"

definition mk_edge :: "string \<Rightarrow> string \<Rightarrow> string option \<Rightarrow> string \<Rightarrow> edge" where
  "mk_edge i f t b =
     \<lparr>edge_id = i, edge_from = f, edge_to = t, edge_buttonId = b,
      edge_pendingX = None, edge_pendingY = None\<rparr>"

definition mk_graph ::
  "node list \<Rightarrow> edge list \<Rightarrow> string option \<Rightarrow> string list \<Rightarrow> (string \<times> jsvalue) list \<Rightarrow> graph"
where
  "mk_graph ns es sel path sels =
     \<lparr>graph_id = ''g_1'', graph_name = ''Graph'', graph_version = 1,
      createdAt = ''2024-01-01T00:00:00.000Z'', updatedAt = ''2024-01-01T00:00:00.000Z'',
      nodes = ns, edges = es,
      ui = \<lparr>selectedNodeId = sel, activePath = path,
             activeSelections = \<lparr>own = sels, proto = None\<rparr>\<rparr>\<rparr>"

text \<open>Scenario A of the specification with a stale selected node: root S (XOR) with choices
  \<open>e1\<close> to A and \<open>e2\<close> to B, \<open>e1\<close> selected.\<close>

definition scenario_A :: graph where
  "scenario_A =
     mk_graph [mk_node ''S'' ''xor'' [], mk_node ''A'' ''xor'' [], mk_node ''B'' ''xor'' []]
       [mk_edge ''e1'' ''S'' (Some ''A'') ''b1'', mk_edge ''e2'' ''S'' (Some ''B'') ''b2'']
       (Some ''gone'') [] [(''S'', JArr [JStr ''e1''])]"

text \<open>The cycle A \<rightarrow> B \<rightarrow> A: two nodes, \<open>e1\<close> selected at the root A and \<open>e2\<close> at B.\<close>

definition cycle_AB :: graph where
  "cycle_AB =
     mk_graph [mk_node ''A'' ''xor'' [], mk_node ''B'' ''xor'' []]
       [mk_edge ''e1'' ''A'' (Some ''B'') ''b1'', mk_edge ''e2'' ''B'' (Some ''A'') ''b2'']
       None [] [(''A'', JArr [JStr ''e1'']), (''B'', JArr [JStr ''e2''])]"

text \<open>Scenario A with both choices of the XOR root S selected.\<close>

definition both_selected :: graph where
  "both_selected =
     mk_graph [mk_node ''S'' ''xor'' [], mk_node ''A'' ''xor'' [], mk_node ''B'' ''xor'' []]
       [mk_edge ''e1'' ''S'' (Some ''A'') ''b1'', mk_edge ''e2'' ''S'' (Some ''B'') ''b2'']
       None [] [(''S'', JArr [JStr ''e1'', JStr ''e2''])]"

text \<open>Two choices of the node \<open>a\<close> that carry the same button id and lead to different nodes.\<close>

definition shared_button :: graph where
  "shared_button =
     mk_graph [mk_node ''a'' ''xor'' [], mk_node ''b'' ''xor'' []]
       [mk_edge ''e1'' ''a'' (Some ''b'') ''b1'', mk_edge ''e2'' ''a'' (Some ''a'') ''b1'']
       None [] []"

text \<open>The editor state around a graph, with nothing selected or chosen.\<close>

definition editor_state :: "graph \<Rightarrow> app_state" where
  "editor_state g =
     \<lparr>currentGraph = Some g, selectedEdgeId = None, selectedEdgeSelectionSource = None,
      pendingChoice = None, lastChosenEdgeId = None, lastChosenNodeId = None\<rparr>"

text \<open>A consistent graph whose node \<open>a\<close> is not on the active path: the root \<open>r\<close> has no
  choices, and \<open>a\<close> has the choice \<open>e\<close> leading to \<open>r\<close>.\<close>

definition off_path :: graph where
  "off_path =
     mk_graph [mk_node ''r'' ''xor'' [],
               mk_node ''a'' ''xor'' [\<lparr>button_id = ''b1'', button_text = ''Choice'', button_to = Some ''r''\<rparr>]]
       [mk_edge ''e'' ''a'' (Some ''r'') ''b1'']
       None [''r''] []"

text \<open>
  A graph whose one edge, from \<open>a\<close> to \<open>b\<close>, carries the id \<open>a\<close> of its source node, and a
  graph whose root is named \<open>__proto__\<close> and has its one choice selected.
\<close>

definition id_clash :: graph where
  "id_clash =
     mk_graph [mk_node ''a'' ''xor'' [], mk_node ''b'' ''xor'' []]
       [mk_edge ''a'' ''a'' (Some ''b'') ''b1'']
       None [] []"

definition proto_root :: graph where
  "proto_root =
     mk_graph [mk_node proto_key ''xor'' [], mk_node ''b'' ''xor'' []]
       [mk_edge ''e1'' proto_key (Some ''b'') ''b1'']
       None [] [(proto_key, JArr [JStr ''e1''])]"

text \<open>
  A document with one node named \<open>constructor\<close>, one edge \<open>e1\<close> from that node to itself,
  and the active path \<open>[e1]\<close>; it has no version and no selections.
\<close>

definition constructor_document :: jsvalue where
  "constructor_document =
     JObj [(''nodes'', JArr [JObj [(''id'', JStr ''constructor'')]]),
           (''edges'', JArr [JObj [(''id'', JStr ''e1''), (''from'', JStr ''constructor''),
                                  (''to'', JStr ''constructor'')]]),
           (''ui'', JObj [(''activePath'', JArr [JStr ''e1''])])]"

text \<open>
  Two documents that pass validation. In the first the one edge, from \<open>a\<close> to \<open>b\<close>, carries the
  id \<open>a\<close> of its source node, and there is no \<open>ui\<close>. In the second the root node is named
  \<open>__proto__\<close> and its one choice is selected; a parsed document holds \<open>__proto__\<close> as an own
  key.
\<close>

definition id_clash_document :: jsvalue where
  "id_clash_document =
     JObj [(''nodes'', JArr [JObj [(''id'', JStr ''a'')], JObj [(''id'', JStr ''b'')]]),
           (''edges'', JArr [JObj [(''id'', JStr ''a''), (''from'', JStr ''a''),
                                  (''to'', JStr ''b''), (''buttonId'', JStr ''b1'')]])]"

definition proto_document :: jsvalue where
  "proto_document =
     JObj [(''nodes'', JArr [JObj [(''id'', JStr proto_key)], JObj [(''id'', JStr ''b'')]]),
           (''edges'', JArr [JObj [(''id'', JStr ''e1''), (''from'', JStr proto_key),
                                  (''to'', JStr ''b''), (''buttonId'', JStr ''b1'')]]),
           (''ui'', JObj [(''activeSelections'', JObj [(proto_key, JArr [JStr ''e1''])])])]"

section \<open>Shared lemmas\<close>

lemma rebuild_frame:
  "nodes (rebuildActivePathFromSelections g) = nodes g"
  "edges (rebuildActivePathFromSelections g) = edges g"
  "selectedNodeId (ui (rebuildActivePathFromSelections g)) = selectedNodeId (ui g)"
  "graph_id (rebuildActivePathFromSelections g) = graph_id g"
  "graph_name (rebuildActivePathFromSelections g) = graph_name g"
  "graph_version (rebuildActivePathFromSelections g) = graph_version g"
  "createdAt (rebuildActivePathFromSelections g) = createdAt g"
  "updatedAt (rebuildActivePathFromSelections g) = updatedAt g"
  by (simp_all add: rebuildActivePathFromSelections_def Let_def split: list.split)

lemma enforceNode_frame:
  "node_id (enforceNode es nd) = node_id nd"
  "node_x (enforceNode es nd) = node_x nd"
  "node_y (enforceNode es nd) = node_y nd"
  "node_text (enforceNode es nd) = node_text nd"
  by (simp_all add: enforceNode_def Let_def)

lemma has_node_enforce: "has_node (map (enforceNode es) ns) k = has_node ns k"
  by (simp add: has_node_def enforceNode_frame comp_def)

lemma enforceStructure_simps:
  "edges (enforceStructure g) = List.map_filter (sanitizeEdge (nodes g)) (edges g)"
  "nodes (enforceStructure g) = map (enforceNode (edges (enforceStructure g))) (nodes g)"
  "selectedNodeId (ui (enforceStructure g)) =
     (case selectedNodeId (ui g) of
        Some k \<Rightarrow> if has_node (nodes g) k then Some k else None
      | None \<Rightarrow> None)"
  "activePath (ui (enforceStructure g)) = activePath (ui g)"
  "activeSelections (ui (enforceStructure g)) = activeSelections (ui g)"
  "graph_id (enforceStructure g) = graph_id g"
  "graph_name (enforceStructure g) = graph_name g"
  "graph_version (enforceStructure g) = graph_version g"
  "createdAt (enforceStructure g) = createdAt g"
  "updatedAt (enforceStructure g) = updatedAt g"
  by (simp_all add: enforceStructure_def Let_def has_node_enforce split: option.split)

lemma enforce_InrE:
  assumes "enforceGraphConsistency g = Inr g'"
  obtains src where
    "sourceSelections (enforceStructure g) = Inr src"
    "g' = rebuildActivePathFromSelections
            ((enforceStructure g)\<lparr>ui := (ui (enforceStructure g))\<lparr>activeSelections :=
               normalizeSelections (nodes (enforceStructure g)) (edges (enforceStructure g)) src\<rparr>\<rparr>)"
  using assms by (auto simp add: enforceGraphConsistency_def Let_def split: sum.splits)

lemma enforce_InrD:
  assumes "enforceGraphConsistency g = Inr g'"
  shows "edges g' = List.map_filter (sanitizeEdge (nodes g)) (edges g)"
    and "nodes g' = map (enforceNode (edges g')) (nodes g)"
    and "selectedNodeId (ui g') =
          (case selectedNodeId (ui g) of
             Some k \<Rightarrow> if has_node (nodes g) k then Some k else None
           | None \<Rightarrow> None)"
    and "graph_id g' = graph_id g" and "graph_name g' = graph_name g"
    and "graph_version g' = graph_version g"
    and "createdAt g' = createdAt g" and "updatedAt g' = updatedAt g"
  using assms
  by (auto elim!: enforce_InrE simp add: rebuild_frame enforceStructure_simps)

lemma Inr_projr: "\<not> isl x \<Longrightarrow> x = Inr (projr x)"
  by (cases x) simp_all

lemma scenario_A_enforced: "\<not> isl (enforceGraphConsistency scenario_A)"
  by code_simp

lemma nodeById_has_node: "nodeById ns k = Some nd \<Longrightarrow> has_node ns k"
  unfolding nodeById_def has_node_def by (auto dest!: map_of_SomeD)

lemma edgeById_id: "edgeById es k = Some e \<Longrightarrow> edge_id e = k \<and> e \<in> set es"
  unfolding edgeById_def by (auto dest!: map_of_SomeD)

lemma obj_get_set:
  "obj_get_array (obj_set_array obj k xs) k' =
     (if k' = k then Some (map JStr xs) else obj_get_array obj k')"
  by (auto simp add: obj_get_array_def obj_set_array_def update_conv' split: option.splits jsvalue.splits)

lemma assignEntry_get:
  "obj_get_array (assignEntry u obj) k' =
     (case u of Some (k, xs) \<Rightarrow> if k' = k then Some (map JStr xs) else obj_get_array obj k'
      | None \<Rightarrow> obj_get_array obj k')"
  by (simp add: assignEntry_def obj_get_set split: option.split)

lemma map_filter_snoc: "List.map_filter h (xs @ [x]) = List.map_filter h xs @ (case h x of Some y \<Rightarrow> [y] | None \<Rightarrow> [])"
  by (simp add: List.map_filter_def split: option.split)

lemma fold_assign_get:
  "obj_get_array (fold (\<lambda>x. assignEntry (h x)) xs obj) k =
     (case map_of (rev (List.map_filter h xs)) k of
        Some v \<Rightarrow> Some (map JStr v)
      | None \<Rightarrow> obj_get_array obj k)"
proof (induction xs rule: rev_induct)
  case Nil
  show ?case by (simp add: List.map_filter_simps)
next
  case (snoc x xs)
  show ?case
    by (cases "h x") (auto simp add: map_filter_snoc assignEntry_get snoc)
qed

lemma plain_empty: "plain_object empty_object"
  by (simp add: plain_object_def empty_object_def)

lemma update_memD: "p \<in> set (AList.update k v al) \<Longrightarrow> p = (k, v) \<or> p \<in> set al"
  by (induction al) (auto split: if_splits)

lemma own_set_array:
  "own (obj_set_array obj k xs) =
     (if k = proto_key \<and> map_of (own obj) k = None then own obj
      else AList.update k (JArr (map JStr xs)) (own obj))"
  by (auto simp add: obj_set_array_def)

lemma proto_set_array:
  "proto (obj_set_array obj k xs) =
     (if k = proto_key \<and> map_of (own obj) k = None then Some xs else proto obj)"
  by (auto simp add: obj_set_array_def)

lemma plain_assign:
  assumes "plain_object obj"
  shows "plain_object (assignEntry u obj)"
proof (cases u)
  case None
  with assms show ?thesis by (simp add: assignEntry_def)
next
  case (Some p)
  obtain k xs where p: "p = (k, xs)" by (cases p)
  from assms have d: "distinct (map fst (own obj))" and n: "proto_key \<notin> fst ` set (own obj)"
    by (simp_all add: plain_object_def)
  from n have none: "map_of (own obj) proto_key = None"
    by (simp add: map_of_eq_None_iff)
  show ?thesis
  proof (cases "k = proto_key")
    case True
    with Some p none d n show ?thesis
      by (simp add: assignEntry_def own_set_array plain_object_def)
  next
    case False
    with Some p d n show ?thesis
      by (simp add: assignEntry_def own_set_array plain_object_def distinct_update dom_update)
  qed
qed

lemma plain_fold: "plain_object obj \<Longrightarrow> plain_object (fold (\<lambda>x. assignEntry (h x)) xs obj)"
  by (induction xs arbitrary: obj) (simp_all add: plain_assign)

lemma plain_get:
  "plain_object obj \<Longrightarrow> k \<noteq> proto_key \<Longrightarrow>
     obj_get_array obj k = (case map_of (own obj) k of Some (JArr xs) \<Rightarrow> Some xs | _ \<Rightarrow> None)"
  by (simp add: obj_get_array_def split: option.split jsvalue.split)

lemma plain_entries: "plain_object obj \<Longrightarrow> obj_entries obj = own obj"
  by (simp add: obj_entries_def plain_object_def distinct_clearjunk_id)

lemma push_unique_length: "length (push_unique ok acc xs) \<le> length acc + length xs"
proof (induction xs arbitrary: acc)
  case Nil show ?case by simp
next
  case (Cons x xs)
  show ?case using Cons.IH [of acc] Cons.IH [of "acc @ [case x of JStr s \<Rightarrow> s]"]
    by (cases x) (auto split: if_splits)
qed

lemma push_unique_strings:
  "distinct ys \<Longrightarrow> set ys \<inter> set acc = {} \<Longrightarrow>
     push_unique ok acc (map JStr ys) = acc @ filter ok ys"
  by (induction ys arbitrary: acc) auto

lemma push_unique_set:
  "set (push_unique ok acc xs) = set acc \<union> {s. JStr s \<in> set xs \<and> ok s}"
proof (induction xs arbitrary: acc)
  case Nil show ?case by simp
next
  case (Cons x xs)
  show ?case using Cons.IH by (cases x) auto
qed

lemma push_unique_distinct: "distinct acc \<Longrightarrow> distinct (push_unique ok acc xs)"
proof (induction xs arbitrary: acc)
  case Nil then show ?case by simp
next
  case (Cons x xs)
  then show ?case by (cases x) auto
qed

lemma get_empty: "obj_get_array empty_object k = None"
  by (simp add: obj_get_array_def empty_object_def)

lemma own_fold_mem:
  "(k, val) \<in> set (own (fold (\<lambda>x. assignEntry (h x)) xs obj)) \<Longrightarrow>
     (k, val) \<in> set (own obj) \<or> (\<exists>x \<in> set xs. \<exists>u. h x = Some (k, u) \<and> val = JArr (map JStr u))"
proof (induction xs arbitrary: obj)
  case Nil
  then show ?case by simp
next
  case (Cons x xs)
  from Cons.IH [of "assignEntry (h x) obj"] Cons.prems
  consider "(k, val) \<in> set (own (assignEntry (h x) obj))"
    | "\<exists>y \<in> set xs. \<exists>u. h y = Some (k, u) \<and> val = JArr (map JStr u)"
    by auto
  then show ?case
  proof cases
    case 1
    then show ?thesis
      by (cases "h x") (auto simp add: assignEntry_def own_set_array split: if_splits dest!: update_memD)
  next
    case 2
    then show ?thesis by auto
  qed
qed

lemma plain_normalize: "plain_object (normalizeSelections ns es src)"
  unfolding normalizeSelections_def by (rule plain_fold [OF plain_empty])

lemma rebuild_selections:
  "activeSelections (ui (rebuildActivePathFromSelections g)) = empty_object
   \<or> (\<exists>path. activeSelections (ui (rebuildActivePathFromSelections g))
         = pruneSelections (nodes g) (edges g) path (getActiveSelections g))"
  by (auto simp add: rebuildActivePathFromSelections_def Let_def split: list.split)

lemma map_filter_mem: "y \<in> set (List.map_filter h xs) \<longleftrightarrow> (\<exists>x \<in> set xs. h x = Some y)"
  by (induction xs) (auto simp add: List.map_filter_simps split: option.splits)

lemma prunedEntry_Some:
  "prunedEntry ns es path (a, b) = Some (k, v) \<longleftrightarrow>
     a = k \<and> activeNodeIds ns path k
     \<and> (\<exists>ys. b = JArr ys \<and> v = push_unique (activeEdgeIds ns es path) [] ys \<and> v \<noteq> [])"
  by (cases b) (auto simp add: Let_def)

lemma prune_get_SomeD:
  assumes "obj_get_array (pruneSelections ns es path sel) k = Some xs"
  shows "\<exists>ys. (k, JArr ys) \<in> set (obj_entries sel)
           \<and> xs = map JStr (push_unique (activeEdgeIds ns es path) [] ys)
           \<and> activeNodeIds ns path k"
proof -
  from assms obtain v where
    v: "map_of (rev (List.map_filter (prunedEntry ns es path) (obj_entries sel))) k = Some v"
    and xs: "xs = map JStr v"
    by (auto simp add: pruneSelections_def fold_assign_get get_empty split: option.splits)
  from map_of_SomeD [OF v] obtain entry where
    e: "entry \<in> set (obj_entries sel)" "prunedEntry ns es path entry = Some (k, v)"
    by (auto simp add: map_filter_mem)
  obtain a b where ab: "entry = (a, b)" by (cases entry)
  from e(2) show ?thesis using xs e(1) unfolding ab prunedEntry_Some by blast
qed

lemma uniqueSelection_xor: "node_type nd = ''xor'' \<Longrightarrow> length (uniqueSelection ns es src nd) \<le> 1"
  by (simp add: uniqueSelection_def Let_def)

lemma normalizedEntry_Some:
  "normalizedEntry ns es src nd = Some (k, u) \<longleftrightarrow>
     k = node_id nd \<and> u = uniqueSelection ns es src nd \<and> u \<noteq> []"
  by (auto simp add: normalizedEntry_def)

lemma mirrorButton_id [simp]: "button_id (mirrorButton e b) = button_id b"
  by (simp add: mirrorButton_def Let_def)

lemma mirrorButton_absorb [simp]: "mirrorButton e (mirrorButton e' b) = mirrorButton e b"
  by (simp add: mirrorButton_def Let_def)

lemma map_of_rev_shift:
  "map_of (rev (map (\<lambda>p. (fst p, Suc (snd p))) l)) b = map_option Suc (map_of (rev l) b)"
  for l :: "(string \<times> nat) list"
proof (induction l rule: rev_induct)
  case Nil
  show ?case by simp
next
  case (snoc p l)
  then show ?case by (cases p) simp
qed

lemma zip_shift:
  "zip ks (map Suc js) = map (\<lambda>p. (fst p, Suc (snd p))) (zip ks js)"
  by (induction ks js rule: list_induct2') simp_all

lemma buttonById_Cons:
  "buttonById (x # xs) b =
     (case buttonById xs b of
        Some j \<Rightarrow> Some (Suc j)
      | None \<Rightarrow> if button_id x = b then Some 0 else None)"
proof -
  have "[0..<length (x # xs)] = 0 # map Suc [0..<length xs]"
    by (simp add: upt_conv_Cons map_Suc_upt del: upt_Suc)
  then have z: "zip (map button_id (x # xs)) [0..<length (x # xs)]
      = (button_id x, 0) # map (\<lambda>p. (fst p, Suc (snd p))) (zip (map button_id xs) [0..<length xs])"
    by (simp only: list.map zip_Cons_Cons zip_shift)
  show ?thesis
    unfolding buttonById_def z
    by (simp only: rev.simps map_of_append map_of_rev_shift)
       (simp add: map_add_def map_of_rev_shift split: option.split)
qed

lemma buttonById_Nil [simp]: "buttonById [] b = None"
  by (simp add: buttonById_def)

lemma buttonById_None: "buttonById bs b = None \<longleftrightarrow> b \<notin> button_id ` set bs"
  by (induction bs) (auto simp add: buttonById_Cons split: option.splits)

lemma update_at_byId:
  "buttonById bs b = Some i \<Longrightarrow>
     bs[i := f (bs ! i)] = onLastOfId (\<lambda>x. if button_id x = b then f x else x) bs"
proof (induction bs arbitrary: i)
  case Nil
  then show ?case by simp
next
  case (Cons x xs)
  show ?case
  proof (cases "buttonById xs b")
    case None
    with Cons.prems have i: "i = 0" and x: "button_id x = b"
      by (auto simp add: buttonById_Cons split: if_splits)
    from None have nb: "b \<notin> button_id ` set xs" by (simp add: buttonById_None)
    have "onLastOfId (\<lambda>x. if button_id x = b then f x else x) xs = xs"
      using nb by (induction xs) auto
    then show ?thesis using i x nb by simp
  next
    case (Some j)
    with Cons.prems have i: "i = Suc j" by (simp add: buttonById_Cons)
    from Some have "b \<in> button_id ` set xs"
      using buttonById_None [of xs b] by auto
    then show ?thesis using i Cons.IH [OF Some] by auto
  qed
qed

lemma mirrorStep_alt:
  "mirrorStep e bs =
     (if edge_buttonId e \<in> button_id ` set bs
      then onLastOfId (\<lambda>x. if button_id x = edge_buttonId e then mirrorButton e x else x) bs
      else bs @ [synthesizedFor e])"
proof (cases "buttonById bs (edge_buttonId e)")
  case None
  then have "edge_buttonId e \<notin> button_id ` set bs" by (simp add: buttonById_None)
  then show ?thesis using None
    by (simp add: mirrorStep_def synthesizedFor_def)
next
  case (Some i)
  then have "edge_buttonId e \<in> button_id ` set bs"
    using buttonById_None [of bs "edge_buttonId e"] by auto
  then show ?thesis using Some update_at_byId [OF Some]
    by (simp add: mirrorStep_def)
qed

lemma buttonById_snoc:
  "buttonById (bs @ [x]) = (buttonById bs)(button_id x \<mapsto> length bs)"
  by (rule ext) (simp add: buttonById_def map_of_append)

lemma buttonById_ids:
  "map button_id bs' = map button_id bs \<Longrightarrow> buttonById bs' = buttonById bs"
  by (simp add: buttonById_def) (metis length_map)

lemma mirrorOutgoing_fold:
  "mirrorOutgoing bs (buttonById bs) es = fold mirrorStep es bs"
proof (induction es arbitrary: bs)
  case Nil
  show ?case by simp
next
  case (Cons e es)
  show ?case
  proof (cases "buttonById bs (edge_buttonId e)")
    case None
    let ?x = "mirrorButton e \<lparr>button_id = edge_buttonId e, button_text = ''Choice'', button_to = edge_to e\<rparr>"
    have eq: "(buttonById bs)(edge_buttonId e \<mapsto> length bs) = buttonById (bs @ [?x])"
      by (simp add: buttonById_snoc)
    have "mirrorOutgoing bs (buttonById bs) (e # es)
        = mirrorOutgoing (bs @ [?x]) ((buttonById bs)(edge_buttonId e \<mapsto> length bs)) es"
      by (simp only: mirrorOutgoing.simps None option.case)
    also have "\<dots> = fold mirrorStep es (bs @ [?x])"
      by (simp only: eq Cons.IH)
    also have "bs @ [?x] = mirrorStep e bs"
      by (simp only: mirrorStep_def None option.case)
    finally show ?thesis by simp
  next
    case (Some i)
    let ?bs = "bs[i := mirrorButton e (bs ! i)]"
    have "map button_id ?bs = map button_id bs"
      by (simp add: map_update) (metis list_update_id map_update nth_map list_update_beyond not_le_imp_less)
    then have eq: "buttonById bs = buttonById ?bs"
      by (rule buttonById_ids [symmetric])
    have "mirrorOutgoing bs (buttonById bs) (e # es) = mirrorOutgoing ?bs (buttonById bs) es"
      by (simp only: mirrorOutgoing.simps Some option.case)
    also have "\<dots> = fold mirrorStep es ?bs"
      by (subst eq) (rule Cons.IH)
    also have "?bs = mirrorStep e bs"
      by (simp only: mirrorStep_def Some option.case)
    finally show ?thesis by simp
  qed
qed


lemma onLastOfId_ids:
  "(\<And>x. button_id (g x) = button_id x) \<Longrightarrow> map button_id (onLastOfId g bs) = map button_id bs"
  by (induction bs) auto

lemma onLastOfId_set_ids:
  "(\<And>x. button_id (g x) = button_id x) \<Longrightarrow> button_id ` set (onLastOfId g bs) = button_id ` set bs"
proof -
  assume "\<And>x. button_id (g x) = button_id x"
  then have "set (map button_id (onLastOfId g bs)) = set (map button_id bs)"
    by (simp only: onLastOfId_ids)
  then show ?thesis by simp
qed

lemma onLastOfId_comp:
  "(\<And>x. button_id (g x) = button_id x) \<Longrightarrow>
     onLastOfId h (onLastOfId g bs) = onLastOfId (\<lambda>x. h (g x)) bs"
  by (induction bs) (auto simp add: onLastOfId_set_ids)

lemma onLastOfId_append:
  "button_id ` set A \<inter> button_id ` set B = {} \<Longrightarrow>
     onLastOfId h (A @ B) = onLastOfId h A @ onLastOfId h B"
  by (induction A) auto

lemma onLastOfId_cong:
  "(\<And>x. x \<in> set bs \<Longrightarrow> g x = h x) \<Longrightarrow> onLastOfId g bs = onLastOfId h bs"
  by (induction bs) auto

lemma onLastOfId_ident: "(\<And>x. x \<in> set bs \<Longrightarrow> g x = x) \<Longrightarrow> onLastOfId g bs = bs"
  by (induction bs) auto

lemma onLastOfId_distinct: "distinct (map button_id bs) \<Longrightarrow> onLastOfId g bs = map g bs"
  by (induction bs) auto

lemma lastEdgeFor_snoc:
  "lastEdgeFor (out @ [e]) b = (if edge_buttonId e = b then Some e else lastEdgeFor out b)"
  by (simp add: lastEdgeFor_def)

lemma lastEdgeFor_None: "lastEdgeFor out b = None \<longleftrightarrow> b \<notin> edge_buttonId ` set out"
  by (auto simp add: lastEdgeFor_def find_None_iff)

lemma lastEdgeFor_Some: "lastEdgeFor out b = Some e \<Longrightarrow> edge_buttonId e = b \<and> e \<in> set out"
  unfolding lastEdgeFor_def find_Some_iff by (metis nth_mem set_rev)

lemma mirrorButton_synthesized:
  "edge_buttonId e' = edge_buttonId e \<Longrightarrow> mirrorButton e' (synthesizedFor e) = synthesizedFor e'"
  by (simp add: synthesizedFor_def mirrorButton_def Let_def)

lemma synthesizedFor_id [simp]: "button_id (synthesizedFor e) = edge_buttonId e"
  by (simp add: synthesizedFor_def)

lemma mirrorAll_id [simp]: "button_id (mirrorAll out x) = button_id x"
  by (simp add: mirrorAll_def split: option.split)

lemma newButtonIds_snoc:
  "newButtonIds (out @ [e]) bs =
     (if edge_buttonId e \<in> button_id ` set bs \<or> edge_buttonId e \<in> set (newButtonIds out bs)
      then newButtonIds out bs else newButtonIds out bs @ [edge_buttonId e])"
  by (auto simp add: newButtonIds_def)

lemma newButtonIds_distinct: "distinct (newButtonIds out bs)"
  by (simp add: newButtonIds_def)

lemma newButtonIds_set:
  "set (newButtonIds out bs) = edge_buttonId ` set out - button_id ` set bs"
  by (auto simp add: newButtonIds_def)

lemma synthesized_ids: "map button_id (synthesized out bs) = newButtonIds out bs"
proof -
  have "button_id (synthesizedFor (the (lastEdgeFor out b))) = b" if "b \<in> set (newButtonIds out bs)" for b
  proof -
    from that have "b \<in> edge_buttonId ` set out" by (simp add: newButtonIds_set)
    then obtain e where "lastEdgeFor out b = Some e"
      using lastEdgeFor_None [of out b] by auto
    then show ?thesis using lastEdgeFor_Some [of out b e] by simp
  qed
  then show ?thesis
    unfolding synthesized_def by (simp add: map_idI)
qed

lemma mirrorAll_Nil: "mirrorAll [] x = x"
  by (simp add: mirrorAll_def lastEdgeFor_def)

lemma mirrorAll_snoc:
  "mirrorAll (out @ [e]) x =
     (if button_id x = edge_buttonId e then mirrorButton e x else mirrorAll out x)"
  by (auto simp add: mirrorAll_def lastEdgeFor_snoc split: option.split)

lemma mirrorAll_snoc_comp:
  "(if button_id x = edge_buttonId e then mirrorButton e (mirrorAll out x)
    else mirrorAll out x) = mirrorAll (out @ [e]) x"
  by (simp add: mirrorAll_snoc) (simp add: mirrorAll_def split: option.split)

lemma mirror_closed_form:
  "fold mirrorStep out bs = onLastOfId (mirrorAll out) bs @ synthesized out bs"
proof (induction out rule: rev_induct)
  case Nil
  show ?case
    by (simp add: onLastOfId_ident mirrorAll_Nil synthesized_def newButtonIds_def)
next
  case (snoc e out)
  let ?b = "edge_buttonId e"
  let ?h = "\<lambda>x. if button_id x = ?b then mirrorButton e x else x"
  let ?M = "onLastOfId (mirrorAll out) bs"
  let ?S = "synthesized out bs"
  have idsM: "button_id ` set ?M = button_id ` set bs"
    by (rule onLastOfId_set_ids) simp
  have idsS: "button_id ` set ?S = set (newButtonIds out bs)"
    using synthesized_ids [of out bs] by (metis set_map)
  have disj: "button_id ` set ?M \<inter> button_id ` set ?S = {}"
    by (auto simp add: idsM idsS newButtonIds_set)
  have idsMS: "button_id ` set (?M @ ?S) = button_id ` set bs \<union> set (newButtonIds out bs)"
    by (simp add: image_Un idsM idsS)
  have step: "fold mirrorStep (out @ [e]) bs = mirrorStep e (?M @ ?S)"
    by (simp add: snoc.IH)
  have hM: "onLastOfId ?h ?M = onLastOfId (mirrorAll (out @ [e])) bs"
    by (simp add: onLastOfId_comp) (rule onLastOfId_cong, simp add: mirrorAll_snoc_comp)
  have dS: "distinct (map button_id ?S)"
    by (simp add: synthesized_ids newButtonIds_distinct)
  have same: "lastEdgeFor (out @ [e]) k = lastEdgeFor out k" if "k \<noteq> ?b" for k
    using that by (auto simp add: lastEdgeFor_snoc)
  show ?case
  proof (cases "?b \<in> button_id ` set bs \<or> ?b \<in> set (newButtonIds out bs)")
    case True
    then have "?b \<in> button_id ` set (?M @ ?S)" unfolding idsMS by blast
    then have "mirrorStep e (?M @ ?S) = onLastOfId ?h (?M @ ?S)"
      by (simp only: mirrorStep_alt if_True)
    also have "\<dots> = onLastOfId ?h ?M @ onLastOfId ?h ?S"
      by (rule onLastOfId_append [OF disj])
    also have "onLastOfId ?h ?S = map ?h ?S"
      by (rule onLastOfId_distinct [OF dS])
    also have "map ?h ?S = synthesized (out @ [e]) bs"
    proof -
      have "?h (synthesizedFor (the (lastEdgeFor out k)))
          = synthesizedFor (the (lastEdgeFor (out @ [e]) k))"
        if "k \<in> set (newButtonIds out bs)" for k
      proof -
        from that have "k \<in> edge_buttonId ` set out" by (simp add: newButtonIds_set)
        then obtain e' where e': "lastEdgeFor out k = Some e'"
          using lastEdgeFor_None [of out k] by auto
        then have k: "edge_buttonId e' = k" using lastEdgeFor_Some by blast
        show ?thesis
        proof (cases "k = ?b")
          case True
          with k have kk: "edge_buttonId e = edge_buttonId e'" by simp
          then have "mirrorButton e (synthesizedFor e') = synthesizedFor e"
            by (rule mirrorButton_synthesized)
          moreover note kk [symmetric]
          moreover from e' True have "lastEdgeFor out ?b = Some e'" by simp
          ultimately show ?thesis using True by (simp add: lastEdgeFor_snoc)
        next
          case False
          then show ?thesis using k by (simp add: e' lastEdgeFor_snoc)
        qed
      qed
      then show ?thesis
        using True by (simp add: synthesized_def newButtonIds_snoc)
    qed
    finally have "mirrorStep e (?M @ ?S) = onLastOfId ?h ?M @ synthesized (out @ [e]) bs" .
    then show ?thesis unfolding step hM .
  next
    case False
    then have nb: "?b \<notin> button_id ` set (?M @ ?S)" unfolding idsMS by blast
    then have r: "mirrorStep e (?M @ ?S) = ?M @ (?S @ [synthesizedFor e])"
      by (simp only: mirrorStep_alt if_False append_assoc)
    have m: "?M = onLastOfId (mirrorAll (out @ [e])) bs"
    proof (rule onLastOfId_cong)
      fix x assume "x \<in> set bs"
      with False have "button_id x \<noteq> ?b" by (metis imageI)
      then show "mirrorAll out x = mirrorAll (out @ [e]) x" by (simp add: mirrorAll_snoc)
    qed
    have "?S @ [synthesizedFor e] = synthesized (out @ [e]) bs"
    proof -
      have "synthesizedFor (the (lastEdgeFor out k)) = synthesizedFor (the (lastEdgeFor (out @ [e]) k))"
        if "k \<in> set (newButtonIds out bs)" for k
      proof -
        from that False have "k \<noteq> ?b" by blast
        then show ?thesis using same [of k] by simp
      qed
      then show ?thesis
        using False by (simp add: synthesized_def newButtonIds_snoc lastEdgeFor_snoc)
    qed
    then show ?thesis unfolding step r using m by simp
  qed
qed

lemma enforceNode_buttons:
  "node_buttons (enforceNode es nd) =
     filter (backed (outgoingByNode es (node_id nd)))
       (onLastOfId (mirrorAll (outgoingByNode es (node_id nd))) (node_buttons nd))
     @ synthesized (outgoingByNode es (node_id nd)) (node_buttons nd)"
proof -
  let ?out = "outgoingByNode es (node_id nd)"
  have "filter (backed ?out) (synthesized ?out (node_buttons nd)) = synthesized ?out (node_buttons nd)"
  proof (rule filter_True, rule ballI)
    fix x assume "x \<in> set (synthesized ?out (node_buttons nd))"
    then have "button_id x \<in> set (newButtonIds ?out (node_buttons nd))"
      using synthesized_ids [of ?out "node_buttons nd"] by (metis image_eqI set_map)
    then show "backed ?out x" by (simp add: backed_def newButtonIds_set)
  qed
  then show ?thesis
    by (simp add: enforceNode_def Let_def mirrorOutgoing_fold mirror_closed_form backed_def [abs_def])
qed

lemma sanitizeEdge_SomeD:
  assumes "sanitizeEdge ns e = Some e'"
  shows "has_node ns (edge_from e')"
    and "edge_from e' = edge_from e" and "edge_id e' = edge_id e" and "edge_buttonId e' = edge_buttonId e"
    and "edge_to e' = None \<or> (\<exists>t. edge_to e' = Some t \<and> t \<noteq> [] \<and> has_node ns t \<and> edge_to e = Some t
            \<or> edge_to e' = Some t \<and> t \<noteq> [] \<and> has_node ns t \<and> (\<exists>s. edge_to e = Some s \<and> t = trim s))"
  using assms by (auto simp add: sanitizeEdge_def split: if_splits option.splits)

lemma sanitized_target:
  assumes "e' \<in> set (List.map_filter (sanitizeEdge ns) es)"
  shows "(case edge_to e' of Some t \<Rightarrow> if t \<noteq> [] then Some t else None | None \<Rightarrow> None) = edge_to e'"
proof -
  from assms obtain e where "sanitizeEdge ns e = Some e'"
    by (auto simp add: List.map_filter_def)
  from sanitizeEdge_SomeD(5) [OF this] show ?thesis by auto
qed

lemma mirrorButton_to:
  "button_to (mirrorButton e b) = (case edge_to e of Some t \<Rightarrow> if t \<noteq> [] then Some t else None | None \<Rightarrow> None)"
  by (simp add: mirrorButton_def Let_def)

lemma distinct_filter_single:
  "distinct (map f L) \<Longrightarrow> x \<in> set L \<Longrightarrow> filter (\<lambda>y. f y = f x) L = [x]"
proof (induction L)
  case Nil
  then show ?case by simp
next
  case (Cons a L)
  show ?case
  proof (cases "a = x")
    case True
    with Cons.prems have "f x \<notin> f ` set L" by simp
    then have "filter (\<lambda>y. f y = f x) L = []"
      unfolding filter_empty_conv by (metis imageI)
    with True show ?thesis by simp
  next
    case False
    with Cons.prems have "x \<in> set L" "f a \<noteq> f x" by auto
    with Cons show ?thesis by simp
  qed
qed

lemma enforced_buttons_distinct:
  assumes "distinct (map button_id (node_buttons nd))"
  shows "distinct (map button_id (node_buttons (enforceNode es nd)))"
proof -
  let ?out = "outgoingByNode es (node_id nd)" and ?bs = "node_buttons nd"
  let ?M = "onLastOfId (mirrorAll ?out) ?bs"
  have "map button_id ?M = map button_id ?bs" by (rule onLastOfId_ids) simp
  with assms have "distinct (map button_id ?M)" by simp
  then have 1: "distinct (map button_id (filter (backed ?out) ?M))"
    by (rule distinct_map_filter)
  have 2: "distinct (map button_id (synthesized ?out ?bs))"
    by (simp add: synthesized_ids newButtonIds_distinct)
  have "button_id ` set ?M = button_id ` set ?bs" by (rule onLastOfId_set_ids) simp
  moreover have "set (map button_id (synthesized ?out ?bs)) = set (newButtonIds ?out ?bs)"
    by (simp only: synthesized_ids)
  ultimately have 3: "button_id ` set (filter (backed ?out) ?M) \<inter> button_id ` set (synthesized ?out ?bs) = {}"
    by (auto simp add: newButtonIds_set)
  show ?thesis
    unfolding enforceNode_buttons using 1 2 3 by simp
qed

lemma onLastOfId_last:
  "b \<in> button_id ` set bs \<Longrightarrow> \<exists>x \<in> set bs. button_id x = b \<and> g x \<in> set (onLastOfId g bs)"
proof (induction bs)
  case Nil
  then show ?case by simp
next
  case (Cons a l)
  show ?case
  proof (cases "b \<in> button_id ` set l")
    case True
    from Cons.IH [OF True] show ?thesis by auto
  next
    case False
    with Cons.prems have "button_id a = b" by auto
    with False show ?thesis by auto
  qed
qed

lemma enforced_button_for_edge:
  assumes E: "E \<in> set (outgoingByNode es (node_id nd))"
  shows "\<exists>B e. B \<in> set (node_buttons (enforceNode es nd)) \<and> button_id B = edge_buttonId E
           \<and> e \<in> set (outgoingByNode es (node_id nd)) \<and> edge_buttonId e = edge_buttonId E
           \<and> button_to B = (case edge_to e of Some t \<Rightarrow> if t \<noteq> [] then Some t else None | None \<Rightarrow> None)"
proof -
  let ?out = "outgoingByNode es (node_id nd)" and ?bs = "node_buttons nd"
  let ?b = "edge_buttonId E"
  from E have bo: "?b \<in> edge_buttonId ` set ?out" by simp
  then obtain e where e: "lastEdgeFor ?out ?b = Some e"
    using lastEdgeFor_None [of ?out ?b] by auto
  then have eb: "edge_buttonId e = ?b" and eo: "e \<in> set ?out"
    using lastEdgeFor_Some by blast+
  show ?thesis
  proof (cases "?b \<in> button_id ` set ?bs")
    case True
    from onLastOfId_last [OF True, of "mirrorAll ?out"] obtain x where
      x: "button_id x = ?b" "mirrorAll ?out x \<in> set (onLastOfId (mirrorAll ?out) ?bs)"
      by blast
    have m: "mirrorAll ?out x = mirrorButton e x"
      using e x(1) by (simp add: mirrorAll_def)
    have "backed ?out (mirrorButton e x)"
      using bo x(1) by (simp add: backed_def)
    with x(2) have "mirrorButton e x \<in> set (node_buttons (enforceNode es nd))"
      by (simp add: enforceNode_buttons m)
    then show ?thesis using eb eo x(1)
      by (intro exI [of _ "mirrorButton e x"] exI [of _ e]) (simp add: mirrorButton_to)
  next
    case False
    then have "?b \<in> set (newButtonIds ?out ?bs)"
      using E by (simp add: newButtonIds_set)
    then have "synthesizedFor e \<in> set (synthesized ?out ?bs)"
      using e by (force simp add: synthesized_def)
    then have "synthesizedFor e \<in> set (node_buttons (enforceNode es nd))"
      by (simp add: enforceNode_buttons)
    moreover have "button_to (synthesizedFor e)
        = (case edge_to e of Some t \<Rightarrow> if t \<noteq> [] then Some t else None | None \<Rightarrow> None)"
      by (simp add: synthesizedFor_def mirrorButton_to)
    ultimately show ?thesis using eb eo by (intro exI [of _ "synthesizedFor e"] exI [of _ e]) simp
  qed
qed

lemma enforced_button_backed:
  assumes "B \<in> set (node_buttons (enforceNode es nd))"
  shows "\<exists>E \<in> set (outgoingByNode es (node_id nd)). edge_buttonId E = button_id B"
proof -
  let ?out = "outgoingByNode es (node_id nd)" and ?bs = "node_buttons nd"
  from assms consider "backed ?out B" | "B \<in> set (synthesized ?out ?bs)"
    by (auto simp add: enforceNode_buttons)
  then show ?thesis
  proof cases
    case 1
    then show ?thesis by (auto simp add: backed_def)
  next
    case 2
    then have "button_id B \<in> set (map button_id (synthesized ?out ?bs))" by simp
    then have "button_id B \<in> edge_buttonId ` set ?out"
      by (simp only: synthesized_ids newButtonIds_set) simp
    then show ?thesis by auto
  qed
qed

lemma selectionAt_empty: "selectionAt empty_object k = []"
  by (simp add: selectionAt_def get_empty)

lemma entries_map_of:
  "(k, v) \<in> set (obj_entries obj) \<Longrightarrow> map_of (own obj) k = Some v"
  unfolding obj_entries_def
  using map_of_clearjunk [of "own obj"] distinct_clearjunk [of "own obj"]
  by (metis map_of_is_SomeI)

lemma push_unique_subset: "set (push_unique ok [] xs) \<subseteq> {s. JStr s \<in> set xs}"
  by (auto simp add: push_unique_set)

lemma pruned_selection_subset:
  assumes "JStr s \<in> set (selectionAt (pruneSelections ns es path sel) k)"
  shows "\<exists>ys. map_of (own sel) k = Some (JArr ys) \<and> JStr s \<in> set ys"
proof -
  from assms obtain xs where g: "obj_get_array (pruneSelections ns es path sel) k = Some xs"
    and s: "JStr s \<in> set xs"
    by (cases "obj_get_array (pruneSelections ns es path sel) k") (auto simp add: selectionAt_def)
  from prune_get_SomeD [OF g] obtain ys where
    ys: "(k, JArr ys) \<in> set (obj_entries sel)"
    and xs: "xs = map JStr (push_unique (activeEdgeIds ns es path) [] ys)"
    by blast
  from s xs have "s \<in> set (push_unique (activeEdgeIds ns es path) [] ys)" by auto
  then have "JStr s \<in> set ys" using push_unique_subset by blast
  with entries_map_of [OF ys] show ?thesis by blast
qed

lemma rebuilt_selection_subset:
  assumes "JStr s \<in> set (selectionAt (activeSelections (ui (rebuildActivePathFromSelections g))) k)"
  shows "\<exists>ys. map_of (own (activeSelections (ui g))) k = Some (JArr ys) \<and> JStr s \<in> set ys"
  using assms rebuild_selections [of g]
  by (auto simp add: selectionAt_empty getActiveSelections_def dest: pruned_selection_subset)

lemma toggle_deselect_own:
  assumes "toggleSelection sel ty nodeId edgeId = (sel', False)"
    and "map_of (own sel') nodeId = Some (JArr ys)"
  shows "JStr edgeId \<notin> set ys"
proof -
  let ?cur = "push_unique (\<lambda>k. k \<noteq> []) [] (selectionAt sel nodeId)"
  let ?next = "filter (\<lambda>k. k \<noteq> edgeId) ?cur"
  from assms(1) consider "sel' = obj_set_array sel nodeId ?next" | "sel' = obj_delete sel nodeId"
    by (auto simp add: toggleSelection_def Let_def split: if_splits)
  then show ?thesis
  proof cases
    case 1
    with assms(2) have "ys = map JStr ?next"
      by (auto simp add: own_set_array update_conv' split: if_splits)
    then show ?thesis by auto
  next
    case 2
    with assms(2) show ?thesis
      by (simp add: obj_delete_def delete_conv')
  qed
qed

lemma toggle_decision:
  "snd (toggleSelection sel ty nodeId edgeId) =
     (let cur = push_unique (\<lambda>k. k \<noteq> []) [] (selectionAt sel nodeId)
      in if ty = ''or'' then edgeId \<notin> set cur else cur \<noteq> [edgeId])"
  by (simp add: toggleSelection_def Let_def)

lemma apply_accepts:
  assumes g: "currentGraph st = Some g" and e: "findEdge g k = Some e" and t: "edgeHasTarget e"
    and src: "findNode g (edge_from e) = Some src"
  shows "\<exists>r st' g'. applyTypedEdgeSelection st k = (Some r, st')
           \<and> currentGraph st' = Some g'
           \<and> g' = rebuildActivePathFromSelections
                    (g\<lparr>ui := (ui g)\<lparr>activeSelections :=
                       fst (toggleSelection (getActiveSelections g)
                              (normalizeNodeTypeText (node_type src)) (node_id src) (edge_id e))\<rparr>\<rparr>)
           \<and> result_edge r = e
           \<and> result_sourceNodeType r = normalizeNodeTypeText (node_type src)
           \<and> result_edgeIsSelected r =
               snd (toggleSelection (getActiveSelections g)
                      (normalizeNodeTypeText (node_type src)) (node_id src) (edge_id e))"
  using assms
  by (simp add: applyTypedEdgeSelection_def Let_def split: prod.split)

subsection \<open>Fixed points of the edge pass\<close>

lemma dropWhile_fixed: "xs = [] \<or> \<not> P (hd xs) \<Longrightarrow> dropWhile P xs = xs"
  by (cases xs) auto

lemma trim_fixed:
  assumes "w \<noteq> []" "\<not> is_space (hd w)" "\<not> is_space (last w)"
  shows "trim w = w"
proof -
  have "dropWhile is_space w = w" using assms(2) by (simp add: dropWhile_fixed)
  moreover have "dropWhile is_space (rev w) = rev w"
    using assms(1,3) by (simp add: dropWhile_fixed hd_rev)
  ultimately show ?thesis by (simp add: trim_def)
qed

lemma trim_ends:
  assumes "trim s \<noteq> []"
  shows "\<not> is_space (hd (trim s))" and "\<not> is_space (last (trim s))"
proof -
  let ?d = "dropWhile is_space s"
  let ?r = "dropWhile is_space (rev ?d)"
  have t: "trim s = rev ?r" by (simp add: trim_def)
  with assms have r: "?r \<noteq> []" by simp
  then have "\<not> is_space (hd ?r)" by (rule hd_dropWhile)
  then show "\<not> is_space (last (trim s))" using r by (simp add: t last_rev)
  from r have d: "?d \<noteq> []" by (metis dropWhile.simps(1) rev_is_Nil_conv)
  then have hd: "\<not> is_space (hd ?d)" by (rule hd_dropWhile)
  obtain pre where "rev ?d = pre @ ?r"
    by (metis takeWhile_dropWhile_id)
  with r have "last (rev ?d) = last ?r" by (metis last_appendR)
  with d have "last ?r = hd ?d" by (metis last_rev)
  with hd r show "\<not> is_space (hd (trim s))" by (simp add: t hd_rev)
qed

lemma trim_idem: "trim (trim s) = trim s"
proof (cases "trim s = []")
  case True
  have "trim [] = []" by (simp add: trim_def)
  with True show ?thesis by simp
next
  case False
  then show ?thesis by (intro trim_fixed trim_ends)
qed

lemma map_filter_fixed: "(\<And>x. x \<in> set xs \<Longrightarrow> f x = Some x) \<Longrightarrow> List.map_filter f xs = xs"
  by (induction xs) (simp_all add: List.map_filter_simps)

lemma sanitizeEdge_idem:
  assumes "sanitizeEdge ns e = Some e'" and same: "\<And>k. has_node ns' k = has_node ns k"
  shows "sanitizeEdge ns' e' = Some e'"
proof -
  from assms(1) have src: "has_node ns (edge_from e')"
    by (auto simp add: sanitizeEdge_def split: if_splits option.splits)
  from assms(1) consider
    (attached) t where "edge_to e' = Some (trim t)" "trim t \<noteq> []" "has_node ns (trim t)"
      "edge_pendingX e' = None" "edge_pendingY e' = None"
    | (dangling) "edge_to e' = None"
      "edge_pendingX e' = None \<or> Number_isFinite (edge_pendingX e')"
      "edge_pendingY e' = None \<or> Number_isFinite (edge_pendingY e')"
    by (auto simp add: sanitizeEdge_def split: if_splits option.splits)
  then show ?thesis
  proof cases
    case attached
    then show ?thesis using src
      by (simp add: sanitizeEdge_def same trim_idem)
  next
    case dangling
    then show ?thesis using src
      by (auto simp add: sanitizeEdge_def same)
  qed
qed

lemma sanitize_idem:
  assumes "\<And>k. has_node ns' k = has_node ns k"
  shows "List.map_filter (sanitizeEdge ns') (List.map_filter (sanitizeEdge ns) es)
         = List.map_filter (sanitizeEdge ns) es"
proof (rule map_filter_fixed)
  fix e' assume "e' \<in> set (List.map_filter (sanitizeEdge ns) es)"
  then obtain e where "sanitizeEdge ns e = Some e'" by (auto simp add: map_filter_mem)
  then show "sanitizeEdge ns' e' = Some e'" using assms by (rule sanitizeEdge_idem)
qed

lemma normalizeNodeTypeText_idem:
  "normalizeNodeTypeText (normalizeNodeTypeText s) = normalizeNodeTypeText s"
proof -
  have "normalizeNodeTypeText ''or'' = ''or''" "normalizeNodeTypeText ''xor'' = ''xor''"
    by code_simp+
  then show ?thesis by (cases "toLowerCase (trim s) = ''or''") (simp_all add: normalizeNodeTypeText_def)
qed

subsection \<open>Fixed points of the color normalization\<close>

lemma hex_digits_plain:
  "list_all (\<lambda>c. \<not> is_space c \<and> lower_char c = c) ''0123456789abcdef''"
  by code_simp

lemma hex_not_space: "is_hex_digit c \<Longrightarrow> \<not> is_space c"
  using hex_digits_plain unfolding is_hex_digit_def list_all_iff by blast

lemma hex_lower: "is_hex_digit c \<Longrightarrow> lower_char c = c"
  using hex_digits_plain unfolding is_hex_digit_def list_all_iff by blast

lemma hash_lower: "lower_char CHR ''#'' = CHR ''#''"
  by code_simp

lemma hex_color_fixed:
  assumes "is_hex_color w"
  shows "normalizeHexColorText w = Some w"
proof -
  from assms obtain r where w: "w = CHR ''#'' # r" and r: "length r = 6" "list_all is_hex_digit r"
    by (cases w) (auto simp add: is_hex_color_def)
  from r have rn: "r \<noteq> []" by auto
  with r(2) have "is_hex_digit (last r)" by (simp add: list_all_iff)
  then have "\<not> is_space (last w)" using rn by (simp add: w hex_not_space)
  moreover have "\<not> is_space CHR ''#''" by code_simp
  then have "\<not> is_space (hd w)" by (simp add: w)
  ultimately have t: "trim w = w" by (intro trim_fixed) (simp_all add: w)
  have "map lower_char r = r"
    using r(2) by (intro map_idI) (simp add: list_all_iff hex_lower)
  then have l: "toLowerCase w = w" by (simp add: toLowerCase_def w hash_lower)
  show ?thesis
    using r by (simp add: normalizeHexColorText_def t l Let_def) (simp add: w)
qed

lemma normalizeHexColorText_hex:
  assumes "normalizeHexColorText v = Some w"
  shows "is_hex_color w"
proof -
  let ?raw = "toLowerCase (trim v)"
  from assms consider "w = ?raw" "length ?raw = 7" "hd ?raw = CHR ''#''" "list_all is_hex_digit (tl ?raw)"
    | "w = [CHR ''#'', ?raw ! 1, ?raw ! 1, ?raw ! 2, ?raw ! 2, ?raw ! 3, ?raw ! 3]"
      "length ?raw = 4" "list_all is_hex_digit (tl ?raw)"
    by (auto simp add: normalizeHexColorText_def Let_def split: if_splits)
  then show ?thesis
  proof cases
    case 1
    then show ?thesis by (simp add: is_hex_color_def)
  next
    case 2
    from 2(2) obtain a b c d where raw: "?raw = [a, b, c, d]"
      by (auto simp add: length_Suc_conv numeral_eq_Suc)
    with 2(3) have "is_hex_digit b" "is_hex_digit c" "is_hex_digit d" by simp_all
    then show ?thesis unfolding 2(1) raw by (simp add: is_hex_color_def)
  qed
qed

lemma normalizeHexColor_idem: "normalizeHexColor (normalizeHexColor c) = normalizeHexColor c"
proof (cases "normalizeHexColor c")
  case None
  then show ?thesis by (simp add: normalizeHexColor_def)
next
  case (Some w)
  then obtain v where "normalizeHexColorText v = Some w"
    by (cases c) (auto simp add: normalizeHexColor_def)
  then have "normalizeHexColorText w = Some w"
    by (intro hex_color_fixed normalizeHexColorText_hex)
  with Some show ?thesis by (simp add: normalizeHexColor_def)
qed

subsection \<open>Fixed points of the button mirroring\<close>

lemma onLastOfId_filter:
  assumes "\<And>x. button_id (g x) = button_id x"
  shows "onLastOfId g (filter (\<lambda>x. P (button_id x)) bs) = filter (\<lambda>x. P (button_id x)) (onLastOfId g bs)"
proof (induction bs)
  case Nil
  show ?case by simp
next
  case (Cons x xs)
  have "button_id x \<in> button_id ` set (filter (\<lambda>x. P (button_id x)) xs) \<longleftrightarrow> button_id x \<in> button_id ` set xs"
    if "P (button_id x)"
    using that by (auto simp add: image_iff)
  then show ?case using Cons.IH assms by simp
qed

lemma mirrorAll_idem: "mirrorAll out (mirrorAll out x) = mirrorAll out x"
  by (simp add: mirrorAll_def split: option.split)

lemma newButtonIds_Nil: "edge_buttonId ` set out \<subseteq> button_id ` set bs \<Longrightarrow> newButtonIds out bs = []"
  using newButtonIds_set [of out bs] by (metis Diff_eq_empty_iff set_empty)

lemma synthesized_fixed: "map (mirrorAll out) (synthesized out bs) = synthesized out bs"
proof -
  have "mirrorAll out (synthesizedFor (the (lastEdgeFor out k))) = synthesizedFor (the (lastEdgeFor out k))"
    if "k \<in> set (newButtonIds out bs)" for k
  proof -
    from that have "k \<in> edge_buttonId ` set out" by (simp add: newButtonIds_set)
    then obtain e where e: "lastEdgeFor out k = Some e"
      using lastEdgeFor_None [of out k] by auto
    then have k: "edge_buttonId e = k" using lastEdgeFor_Some by blast
    show ?thesis
      by (simp add: e mirrorAll_def k mirrorButton_synthesized)
  qed
  then show ?thesis by (simp add: synthesized_def)
qed

lemma mirrored_buttons_idem:
  fixes out bs
  defines "L \<equiv> filter (backed out) (onLastOfId (mirrorAll out) bs) @ synthesized out bs"
  shows "filter (backed out) (onLastOfId (mirrorAll out) L) @ synthesized out L = L"
proof -
  let ?G = "mirrorAll out"
  let ?M = "onLastOfId ?G bs" and ?S = "synthesized out bs"
  have idsM: "button_id ` set ?M = button_id ` set bs"
    by (rule onLastOfId_set_ids) simp
  have idsS: "button_id ` set ?S = set (newButtonIds out bs)"
    using synthesized_ids [of out bs] by (metis set_map)
  have b: "backed out = (\<lambda>x. (\<lambda>k. k \<in> edge_buttonId ` set out) (button_id x))"
    by (simp add: backed_def [abs_def])
  have "button_id ` set (filter (backed out) ?M)
      = {k \<in> button_id ` set ?M. k \<in> edge_buttonId ` set out}"
    by (auto simp add: backed_def)
  then have idsF: "button_id ` set (filter (backed out) ?M) = button_id ` set bs \<inter> edge_buttonId ` set out"
    unfolding idsM by blast
  have disj: "button_id ` set (filter (backed out) ?M) \<inter> button_id ` set ?S = {}"
    unfolding idsF idsS newButtonIds_set by blast
  have dS: "distinct (map button_id ?S)"
    by (simp add: synthesized_ids newButtonIds_distinct)
  have "onLastOfId ?G L = onLastOfId ?G (filter (backed out) ?M) @ onLastOfId ?G ?S"
    unfolding L_def by (rule onLastOfId_append [OF disj])
  also have "onLastOfId ?G (filter (backed out) ?M) = filter (backed out) (onLastOfId ?G ?M)"
    unfolding b by (rule onLastOfId_filter) simp
  also have "onLastOfId ?G ?M = ?M"
    by (simp add: onLastOfId_comp mirrorAll_idem)
  also have "onLastOfId ?G ?S = ?S"
    by (simp add: onLastOfId_distinct [OF dS] synthesized_fixed)
  finally have 1: "onLastOfId ?G L = L" by (simp add: L_def)
  have "edge_buttonId ` set out \<subseteq> button_id ` set L"
    unfolding L_def set_append image_Un idsF idsS newButtonIds_set by blast
  then have 2: "synthesized out L = []"
    by (simp add: synthesized_def newButtonIds_Nil)
  have 3: "filter (backed out) L = L"
  proof -
    have "filter (backed out) ?S = ?S"
    proof (rule filter_True, rule ballI)
      fix x assume "x \<in> set ?S"
      then have "button_id x \<in> set (newButtonIds out bs)" using idsS by blast
      then show "backed out x" by (simp add: backed_def newButtonIds_set)
    qed
    then show ?thesis by (simp add: L_def)
  qed
  show ?thesis by (simp add: 1 2 3)
qed

lemma enforceNode_idem: "enforceNode es (enforceNode es nd) = enforceNode es nd"
proof -
  have b: "node_buttons (enforceNode es (enforceNode es nd)) = node_buttons (enforceNode es nd)"
    unfolding enforceNode_buttons [of es "enforceNode es nd"]
    unfolding enforceNode_frame
    unfolding enforceNode_buttons [of es nd]
    by (rule mirrored_buttons_idem)
  have t: "node_type (enforceNode es (enforceNode es nd)) = node_type (enforceNode es nd)"
    by (simp add: enforceNode_def Let_def normalizeNodeTypeText_idem)
  have c: "node_color (enforceNode es (enforceNode es nd)) = node_color (enforceNode es nd)"
    by (simp add: enforceNode_def Let_def normalizeHexColor_idem)
  have m: "node.more (enforceNode es (enforceNode es nd)) = node.more (enforceNode es nd)"
    by (simp add: enforceNode_def Let_def)
  show ?thesis
    by (rule node.equality) (simp_all add: b t c m enforceNode_frame)
qed

subsection \<open>The walk as a function of the followed edges\<close>

lemma walk_selected_concat:
  "walk_selected ns es sel n st xs =
     concat (map (\<lambda>(e, t). edge_id e # walk ns es sel t st) (List.map_filter (followed ns es n) xs))"
  by (induction xs) (auto simp add: List.map_filter_simps split: option.split)

lemma walk_unfold:
  assumes "nodeById ns n = Some nd" "n \<notin> set st"
  shows "walk ns es sel n st =
           n # concat (map (\<lambda>(e, t). edge_id e # walk ns es sel t (n # st)) (followedAt ns es sel n nd))"
  using assms by (simp add: walk.simps walk_selected_concat followedAt_def)

lemma walk_stop:
  "nodeById ns n = None \<Longrightarrow> walk ns es sel n st = []"
  "nodeById ns n = Some nd \<Longrightarrow> n \<in> set st \<Longrightarrow> walk ns es sel n st = [n]"
  by (simp_all add: walk.simps)

lemma followedAt_D:
  assumes "(e, t) \<in> set (followedAt ns es sel n nd)"
  shows "e \<in> set es" and "has_node ns t" and "edge_from e = n" and "edge_to e = Some t"
    and "JStr (edge_id e) \<in> set (selectedEdgeIds sel nd n)" and "edgeById es (edge_id e) = Some e"
proof -
  from assms obtain x where x: "x \<in> set (selectedEdgeIds sel nd n)" "followed ns es n x = Some (e, t)"
    by (auto simp add: followedAt_def map_filter_mem)
  from x(2) obtain k where k: "x = JStr k" "edgeById es k = Some e" "edge_to e = Some t"
    "edge_from e = n" "has_node ns t"
    by (auto simp add: followed_def split: jsvalue.splits option.splits if_splits)
  from k(2) have id: "edge_id e = k" "e \<in> set es" by (simp_all add: edgeById_id)
  show "e \<in> set es" "has_node ns t" "edge_from e = n" "edge_to e = Some t"
    "JStr (edge_id e) \<in> set (selectedEdgeIds sel nd n)" "edgeById es (edge_id e) = Some e"
    using x k id by simp_all
qed

lemma has_node_nodeById: "has_node ns k \<longleftrightarrow> nodeById ns k \<noteq> None"
  by (simp add: has_node_def nodeById_def map_of_eq_None_iff image_image)

text \<open>The measure of the walk: the nodes of the graph that are not yet ancestors.\<close>

lemma walk_measure_less:
  assumes "nodeById ns n = Some nd" "n \<notin> set st"
  shows "card (set (map node_id ns) - set (n # st)) < card (set (map node_id ns) - set st)"
proof -
  from assms(1) have "n \<in> set (map node_id ns)"
    using nodeById_has_node [OF assms(1)] by (simp add: has_node_def)
  with assms(2) have "set (map node_id ns) - set (n # st) \<subset> set (map node_id ns) - set st"
    by auto
  then show ?thesis by (intro psubset_card_mono) auto
qed

lemma walk_sub_entries:
  assumes "nodeById ns n = Some nd" "n \<notin> set st" "(e, t) \<in> set (followedAt ns es sel n nd)"
  shows "set (walk ns es sel t (n # st)) \<subseteq> set (walk ns es sel n st)"
    and "edge_id e \<in> set (walk ns es sel n st)"
  using assms(3) unfolding walk_unfold [OF assms(1,2)] by force+

lemma walk_cong:
  assumes "set (walk ns es sel n st) \<subseteq> P"
    and "\<And>k nd. k \<in> P \<Longrightarrow> nodeById ns k = Some nd \<Longrightarrow> followedAt ns es sel' k nd = followedAt ns es sel k nd"
  shows "walk ns es sel' n st = walk ns es sel n st"
  using assms(1)
proof (induction "card (set (map node_id ns) - set st)" arbitrary: n st rule: less_induct)
  case less
  show ?case
  proof (cases "nodeById ns n")
    case None
    then show ?thesis by (simp add: walk_stop)
  next
    case (Some nd)
    show ?thesis
    proof (cases "n \<in> set st")
      case True
      with Some show ?thesis by (simp add: walk_stop)
    next
      case False
      have nP: "n \<in> P" using less.prems by (auto simp add: walk_unfold [OF Some False])
      have eq: "followedAt ns es sel' n nd = followedAt ns es sel n nd"
        by (rule assms(2) [OF nP Some])
      have sub: "walk ns es sel' t (n # st) = walk ns es sel t (n # st)"
        if "(e, t) \<in> set (followedAt ns es sel n nd)" for e t
      proof (rule less.hyps)
        show "card (set (map node_id ns) - set (n # st)) < card (set (map node_id ns) - set st)"
          by (rule walk_measure_less [OF Some False])
        show "set (walk ns es sel t (n # st)) \<subseteq> P"
          using walk_sub_entries(1) [OF Some False that] less.prems by blast
      qed
      have m: "map (\<lambda>(e, t). edge_id e # walk ns es sel' t (n # st)) (followedAt ns es sel n nd)
          = map (\<lambda>(e, t). edge_id e # walk ns es sel t (n # st)) (followedAt ns es sel n nd)"
        by (rule map_cong) (auto simp add: sub)
      show ?thesis
        unfolding walk_unfold [OF Some False] eq m ..
    qed
  qed
qed

lemma walk_entries:
  assumes "x \<in> set (walk ns es sel n st)"
  shows "has_node ns x \<or> has_edge es x"
  using assms
proof (induction "card (set (map node_id ns) - set st)" arbitrary: n st rule: less_induct)
  case less
  show ?case
  proof (cases "nodeById ns n")
    case None
    with less.prems show ?thesis by (simp add: walk_stop)
  next
    case (Some nd)
    then have hn: "has_node ns n" by (rule nodeById_has_node)
    show ?thesis
    proof (cases "n \<in> set st")
      case True
      with Some less.prems hn show ?thesis by (simp add: walk_stop)
    next
      case False
      from less.prems consider "x = n"
        | e t where "(e, t) \<in> set (followedAt ns es sel n nd)" "x = edge_id e"
        | e t where "(e, t) \<in> set (followedAt ns es sel n nd)" "x \<in> set (walk ns es sel t (n # st))"
        by (auto simp add: walk_unfold [OF Some False])
      then show ?thesis
      proof cases
        case 1
        with hn show ?thesis by simp
      next
        case 2
        from followedAt_D(1) [OF 2(1)] 2(2) show ?thesis by (auto simp add: has_edge_def)
      next
        case 3
        from less.hyps [OF walk_measure_less [OF Some False] 3(2)] show ?thesis .
      qed
    qed
  qed
qed

lemma walk_expanded:
  assumes D: "\<forall>e \<in> set es. \<not> has_node ns (edge_id e)"
    and "k \<in> set (walk ns es sel n st)" "k \<notin> set st" "nodeById ns k = Some nd"
    and "(e, t) \<in> set (followedAt ns es sel k nd)"
  shows "edge_id e \<in> set (walk ns es sel n st)"
  using assms(2,3)
proof (induction "card (set (map node_id ns) - set st)" arbitrary: n st rule: less_induct)
  case less
  have hk: "has_node ns k" using assms(4) by (rule nodeById_has_node)
  show ?case
  proof (cases "nodeById ns n")
    case None
    with less.prems show ?thesis by (simp add: walk_stop)
  next
    case (Some nd')
    show ?thesis
    proof (cases "n \<in> set st")
      case True
      with Some less.prems show ?thesis by (simp add: walk_stop)
    next
      case False
      from less.prems(1) consider "k = n"
        | e' t' where "(e', t') \<in> set (followedAt ns es sel n nd')" "k = edge_id e'"
        | e' t' where "(e', t') \<in> set (followedAt ns es sel n nd')" "k \<in> set (walk ns es sel t' (n # st))"
        by (auto simp add: walk_unfold [OF Some False])
      then show ?thesis
      proof cases
        case 1
        with Some assms(4) have "nd' = nd" by simp
        with 1 assms(5) show ?thesis
          using walk_sub_entries(2) [OF Some False] by blast
      next
        case 2
        from followedAt_D(1) [OF 2(1)] D have "\<not> has_node ns (edge_id e')" by blast
        with 2(2) hk show ?thesis by simp
      next
        case 3
        show ?thesis
        proof (cases "k = n")
          case True
          with Some assms(4) have "nd' = nd" by simp
          with True assms(5) show ?thesis
            using walk_sub_entries(2) [OF Some False] by blast
        next
          case kn: False
          with less.prems(2) have "k \<notin> set (n # st)" by simp
          from less.hyps [OF walk_measure_less [OF Some False] 3(2) this]
          show ?thesis using walk_sub_entries(1) [OF Some False 3(1)] by blast
        qed
      qed
    qed
  qed
qed

subsection \<open>Reading the normalized and the pruned selections\<close>

lemma uniqueSelection_facts:
  "distinct (uniqueSelection ns es src nd)"
  "set (uniqueSelection ns es src nd) \<subseteq> set (validEdgeIds ns es (node_id nd))"
proof -
  let ?p = "push_unique (\<lambda>k. k \<in> set (validEdgeIds ns es (node_id nd))) [] (selectionAt src (node_id nd))"
  have d: "distinct ?p" by (rule push_unique_distinct) simp
  have s: "set ?p \<subseteq> set (validEdgeIds ns es (node_id nd))" by (auto simp add: push_unique_set)
  show "distinct (uniqueSelection ns es src nd)"
    using d by (simp add: uniqueSelection_def Let_def)
  show "set (uniqueSelection ns es src nd) \<subseteq> set (validEdgeIds ns es (node_id nd))"
    using s by (auto simp add: uniqueSelection_def Let_def dest: in_set_takeD)
qed

lemma uniqueSelection_empty_iff:
  "uniqueSelection ns es src nd = [] \<longleftrightarrow>
     push_unique (\<lambda>k. k \<in> set (validEdgeIds ns es (node_id nd))) [] (selectionAt src (node_id nd)) = []"
  by (auto simp add: uniqueSelection_def Let_def)

lemma uniqueSelection_empty_same_id:
  "node_id nd = node_id nd' \<Longrightarrow>
     uniqueSelection ns es src nd = [] \<longleftrightarrow> uniqueSelection ns es src nd' = []"
  by (simp add: uniqueSelection_empty_iff)

lemma normalizedEntry_snoc:
  "List.map_filter (normalizedEntry ns es src) (xs @ [x]) =
     List.map_filter (normalizedEntry ns es src) xs
     @ (if uniqueSelection ns es src x \<noteq> [] then [(node_id x, uniqueSelection ns es src x)] else [])"
  by (simp add: map_filter_snoc) (simp add: normalizedEntry_def)

lemma normalized_entries_lookup:
  "map_of (rev (List.map_filter (normalizedEntry ns es src) xs)) k =
     (case map_of (rev (map (\<lambda>n. (node_id n, n)) xs)) k of
        None \<Rightarrow> None
      | Some nd \<Rightarrow> if uniqueSelection ns es src nd \<noteq> [] then Some (uniqueSelection ns es src nd) else None)"
proof (induction xs rule: rev_induct)
  case Nil
  show ?case by (simp add: List.map_filter_simps)
next
  case (snoc x xs)
  show ?case
  proof (cases "k = node_id x")
    case False
    then show ?thesis using snoc
      by (simp add: normalizedEntry_snoc)
  next
    case True
    show ?thesis
    proof (cases "uniqueSelection ns es src x = []")
      case False
      with True show ?thesis by (simp add: normalizedEntry_snoc)
    next
      case e: True
      have "uniqueSelection ns es src nd = []"
        if "map_of (rev (map (\<lambda>n. (node_id n, n)) xs)) k = Some nd" for nd
      proof -
        from map_of_SomeD [OF that] have "node_id nd = k" by auto
        with True e show ?thesis using uniqueSelection_empty_same_id [of nd x] by simp
      qed
      then have "map_of (rev (List.map_filter (normalizedEntry ns es src) xs)) k = None"
        by (simp add: snoc split: option.split)
      with True e show ?thesis by (simp add: normalizedEntry_snoc)
    qed
  qed
qed

lemma normalize_get:
  "obj_get_array (normalizeSelections ns es src) k =
     (case nodeById ns k of
        None \<Rightarrow> None
      | Some nd \<Rightarrow> if uniqueSelection ns es src nd \<noteq> [] then Some (map JStr (uniqueSelection ns es src nd))
                   else None)"
  by (simp add: normalizeSelections_def fold_assign_get normalized_entries_lookup nodeById_def get_empty
      split: option.split)

lemma normalize_selectionAt:
  "selectionAt (normalizeSelections ns es src) k =
     (case nodeById ns k of None \<Rightarrow> [] | Some nd \<Rightarrow> map JStr (uniqueSelection ns es src nd))"
  by (simp add: selectionAt_def normalize_get split: option.split)

lemma distinct_entries_lookup:
  assumes "distinct (map fst l)" and key: "\<And>a b c d. h (a, b) = Some (c, d) \<Longrightarrow> c = a"
  shows "map_of (rev (List.map_filter h l)) k =
           (case map_of l k of Some v \<Rightarrow> map_option snd (h (k, v)) | None \<Rightarrow> None)"
  using assms(1)
proof (induction l rule: rev_induct)
  case Nil
  show ?case by (simp add: List.map_filter_simps)
next
  case (snoc p l)
  obtain a b where p: "p = (a, b)" by (cases p)
  from snoc.prems have d: "distinct (map fst l)" and a: "a \<notin> fst ` set l" by (simp_all add: p)
  from a have n: "map_of l a = None" by (simp add: map_of_eq_None_iff)
  show ?case
  proof (cases "h (a, b)")
    case None
    then show ?thesis using snoc.IH [OF d] n
      by (simp add: map_filter_snoc p map_add_def split: option.split)
  next
    case (Some q)
    obtain c w where q: "q = (c, w)" by (cases q)
    with Some key have c: "c = a" by blast
    show ?thesis using snoc.IH [OF d] n Some
      by (auto simp add: map_filter_snoc p q c map_add_def split: option.split)
  qed
qed

lemma prune_get:
  "obj_get_array (pruneSelections ns es path sel) k =
     (case map_of (own sel) k of
        Some (JArr ys) \<Rightarrow>
          if activeNodeIds ns path k \<and> push_unique (activeEdgeIds ns es path) [] ys \<noteq> []
          then Some (map JStr (push_unique (activeEdgeIds ns es path) [] ys)) else None
      | _ \<Rightarrow> None)"
proof -
  have key: "c = a" if "prunedEntry ns es path (a, b) = Some (c, d)" for a b c d
    using that by (simp add: prunedEntry_Some)
  have l: "map_of (rev (List.map_filter (prunedEntry ns es path) (obj_entries sel))) k =
      (case map_of (own sel) k of Some v \<Rightarrow> map_option snd (prunedEntry ns es path (k, v)) | None \<Rightarrow> None)"
    unfolding obj_entries_def
    using distinct_entries_lookup [OF distinct_clearjunk, of "prunedEntry ns es path" "own sel" k] key
    by (simp add: map_of_clearjunk)
  show ?thesis
  proof (cases "map_of (own sel) k")
    case None
    then show ?thesis by (simp add: pruneSelections_def fold_assign_get l get_empty)
  next
    case (Some v)
    then show ?thesis
      by (cases v) (simp_all add: pruneSelections_def fold_assign_get l get_empty Let_def)
  qed
qed

lemma push_unique_filter:
  "distinct ys \<Longrightarrow> push_unique ok [] (map JStr ys) = filter ok ys"
  using push_unique_strings [of ys "[]" ok] by simp

lemma map_filter_filter:
  "(\<And>x. x \<in> set xs \<Longrightarrow> f x \<noteq> None \<Longrightarrow> P x) \<Longrightarrow>
     List.map_filter f (filter P xs) = List.map_filter f xs"
  by (induction xs) (auto simp add: List.map_filter_simps split: option.split)

lemma map_filter_map: "List.map_filter f (map g xs) = List.map_filter (\<lambda>x. f (g x)) xs"
  by (induction xs) (simp_all add: List.map_filter_simps split: option.split)

lemma nodeById_id: "nodeById ns k = Some nd \<Longrightarrow> node_id nd = k \<and> nd \<in> set ns"
  unfolding nodeById_def by (auto dest!: map_of_SomeD)

text \<open>The selections after one pass: normalized, then pruned along the derived path.\<close>

lemma pruned_normalized_get:
  assumes P: "\<not> has_node ns proto_key"
  shows "obj_get_array (pruneSelections ns es path (normalizeSelections ns es src)) k =
     (case nodeById ns k of
        None \<Rightarrow> None
      | Some nd \<Rightarrow>
          if k \<in> set path \<and> filter (activeEdgeIds ns es path) (uniqueSelection ns es src nd) \<noteq> []
          then Some (map JStr (filter (activeEdgeIds ns es path) (uniqueSelection ns es src nd)))
          else None)"
proof -
  let ?N = "normalizeSelections ns es src"
  have plain: "plain_object ?N" by (rule plain_normalize)
  show ?thesis
  proof (cases "k = proto_key")
    case True
    with P have "nodeById ns k = None" by (simp add: has_node_nodeById)
    moreover from plain True have "map_of (own ?N) k = None"
      by (simp add: plain_object_def map_of_eq_None_iff)
    ultimately show ?thesis by (simp add: prune_get)
  next
    case False
    have g: "obj_get_array ?N k = (case map_of (own ?N) k of Some (JArr xs) \<Rightarrow> Some xs | _ \<Rightarrow> None)"
      by (rule plain_get [OF plain False])
    show ?thesis
    proof (cases "nodeById ns k")
      case None
      then have "obj_get_array ?N k = None" by (simp add: normalize_get)
      moreover have "\<not> activeNodeIds ns path k"
        using None by (simp add: activeNodeIds_def has_node_nodeById)
      ultimately show ?thesis using None
        by (simp add: prune_get split: option.split jsvalue.split)
    next
      case (Some nd)
      let ?u = "uniqueSelection ns es src nd"
      have hn: "has_node ns k" using Some by (rule nodeById_has_node)
      have d: "distinct ?u" by (rule uniqueSelection_facts)
      show ?thesis
      proof (cases "?u = []")
        case True
        with Some have "obj_get_array ?N k = None" by (simp add: normalize_get)
        with g have "\<forall>ys. map_of (own ?N) k \<noteq> Some (JArr ys)"
          by (auto split: option.splits jsvalue.splits)
        then show ?thesis using Some True
          by (simp add: prune_get split: option.split jsvalue.split)
      next
        case False
        with Some have "obj_get_array ?N k = Some (map JStr ?u)" by (simp add: normalize_get)
        with g have "map_of (own ?N) k = Some (JArr (map JStr ?u))"
          by (auto split: option.splits jsvalue.splits)
        then show ?thesis using Some hn
          by (simp add: prune_get push_unique_filter [OF d] activeNodeIds_def)
      qed
    qed
  qed
qed

lemma uniqueSelection_of_pruned:
  assumes P: "\<not> has_node ns proto_key" and nd: "nodeById ns k = Some nd" and k: "node_id nd' = k"
  shows "uniqueSelection ns es (pruneSelections ns es path (normalizeSelections ns es src)) nd' =
           (let f = filter (activeEdgeIds ns es path) (uniqueSelection ns es src nd)
            in if k \<in> set path
               then (if node_type nd' = ''xor'' \<and> length f > 1 then take 1 f else f) else [])"
proof -
  let ?u = "uniqueSelection ns es src nd"
  let ?f = "filter (activeEdgeIds ns es path) ?u"
  let ?S = "pruneSelections ns es path (normalizeSelections ns es src)"
  have idk: "node_id nd = k" using nd nodeById_id by blast
  have sel: "selectionAt ?S k = (if k \<in> set path then map JStr ?f else [])"
    by (simp add: selectionAt_def pruned_normalized_get [OF P] nd)
  have d: "distinct ?f" using uniqueSelection_facts(1) [of ns es src nd] by simp
  have v: "filter (\<lambda>x. x \<in> set (validEdgeIds ns es k)) ?f = ?f"
    using uniqueSelection_facts(2) [of ns es src nd] idk by (intro filter_True) auto
  have p: "push_unique (\<lambda>x. x \<in> set (validEdgeIds ns es k)) [] (selectionAt ?S k)
      = (if k \<in> set path then ?f else [])"
  proof (cases "k \<in> set path")
    case True
    then have "push_unique (\<lambda>x. x \<in> set (validEdgeIds ns es k)) [] (selectionAt ?S k)
        = filter (\<lambda>x. x \<in> set (validEdgeIds ns es k)) ?f"
      by (simp only: sel if_True push_unique_filter [OF d])
    with True show ?thesis by (simp only: v if_True)
  next
    case False
    then show ?thesis by (simp add: sel)
  qed
  show ?thesis
    unfolding uniqueSelection_def [of ns es ?S nd'] Let_def k p by simp
qed

subsection \<open>The second pass\<close>

lemma walk_edge_origin:
  assumes "x \<in> set (walk ns es sel n st)" "\<not> has_node ns x"
  shows "\<exists>k nd e t. k \<in> set (walk ns es sel n st) \<and> k \<notin> set st \<and> nodeById ns k = Some nd
           \<and> (e, t) \<in> set (followedAt ns es sel k nd) \<and> edge_id e = x"
  using assms(1)
proof (induction "card (set (map node_id ns) - set st)" arbitrary: n st rule: less_induct)
  case less
  show ?case
  proof (cases "nodeById ns n")
    case None
    with less.prems show ?thesis by (simp add: walk_stop)
  next
    case (Some nd)
    then have hn: "has_node ns n" by (rule nodeById_has_node)
    show ?thesis
    proof (cases "n \<in> set st")
      case True
      with Some less.prems hn assms(2) show ?thesis by (simp add: walk_stop)
    next
      case False
      have nin: "n \<in> set (walk ns es sel n st)"
        by (simp add: walk_unfold [OF Some False])
      from less.prems consider "x = n"
        | e t where "(e, t) \<in> set (followedAt ns es sel n nd)" "x = edge_id e"
        | e t where "(e, t) \<in> set (followedAt ns es sel n nd)" "x \<in> set (walk ns es sel t (n # st))"
        by (auto simp add: walk_unfold [OF Some False])
      then show ?thesis
      proof cases
        case 1
        with hn assms(2) show ?thesis by simp
      next
        case 2
        with nin Some False show ?thesis by blast
      next
        case 3
        from less.hyps [OF walk_measure_less [OF Some False] 3(2)]
        obtain k nd' e' t' where k: "k \<in> set (walk ns es sel t (n # st))" "k \<notin> set (n # st)"
          "nodeById ns k = Some nd'" "(e', t') \<in> set (followedAt ns es sel k nd')" "edge_id e' = x"
          by blast
        from k(1) walk_sub_entries(1) [OF Some False 3(1)]
        have "k \<in> set (walk ns es sel n st)" by blast
        moreover from k(2) have "k \<notin> set st" by simp
        ultimately show ?thesis using k(3,4,5) by blast
      qed
    qed
  qed
qed

lemma enforceStructure_fixed:
  assumes n: "nodes g1 = nodes (enforceStructure g)" and e: "edges g1 = edges (enforceStructure g)"
    and s: "selectedNodeId (ui g1) = selectedNodeId (ui (enforceStructure g))"
  shows "enforceStructure g1 = g1"
proof -
  let ?es = "List.map_filter (sanitizeEdge (nodes g)) (edges g)"
  have es: "edges g1 = ?es" by (simp add: e enforceStructure_simps)
  have ns: "nodes g1 = map (enforceNode ?es) (nodes g)"
    using n by (simp add: enforceStructure_simps)
  have hn: "has_node (nodes g1) k = has_node (nodes g) k" for k
    by (simp add: ns has_node_enforce)
  have 1: "List.map_filter (sanitizeEdge (nodes g1)) (edges g1) = edges g1"
    unfolding es by (rule sanitize_idem) (rule hn)
  have 2: "map (enforceNode (edges g1)) (nodes g1) = nodes g1"
    unfolding es ns by (simp add: enforceNode_idem)
  have 3: "(case selectedNodeId (ui g1) of
              Some k \<Rightarrow> if has_node (nodes g1) k then Some k else None
            | None \<Rightarrow> None) = selectedNodeId (ui g1)"
    unfolding s by (simp add: enforceStructure_simps hn split: option.split)
  have "enforceStructure g1
      = g1\<lparr>nodes := nodes g1, edges := edges g1,
           ui := (ui g1)\<lparr>selectedNodeId := selectedNodeId (ui g1)\<rparr>\<rparr>"
    unfolding enforceStructure_def Let_def 1 2 has_node_enforce 3 ..
  then show ?thesis by simp
qed

lemma normalize_cong:
  assumes "\<And>k. selectionAt a k = selectionAt b k"
  shows "normalizeSelections ns es a = normalizeSelections ns es b"
proof -
  have "normalizedEntry ns es a = normalizedEntry ns es b"
    by (rule ext) (simp add: normalizedEntry_def uniqueSelection_def assms)
  then show ?thesis by (simp add: normalizeSelections_def)
qed

lemma proto_fold:
  assumes "\<And>x k u. h x = Some (k, u) \<Longrightarrow> k \<noteq> proto_key"
  shows "proto (fold (\<lambda>x. assignEntry (h x)) xs obj) = proto obj"
proof (induction xs arbitrary: obj)
  case Nil
  show ?case by simp
next
  case (Cons x xs)
  have "proto (assignEntry (h x) obj) = proto obj"
    using assms [of x] by (cases "h x") (auto simp add: assignEntry_def proto_set_array)
  with Cons.IH [of "assignEntry (h x) obj"] show ?case by simp
qed

lemma proto_prune:
  assumes "\<not> has_node ns proto_key"
  shows "proto (pruneSelections ns es path sel) = None"
proof -
  have "k \<noteq> proto_key" if "prunedEntry ns es path x = Some (k, u)" for x k u
  proof -
    obtain a b where x: "x = (a, b)" by (cases x)
    from that have "activeNodeIds ns path k"
      unfolding x by (cases b) (auto simp add: Let_def split: if_splits)
    with assms show ?thesis by (auto simp add: activeNodeIds_def)
  qed
  from proto_fold [where h = "prunedEntry ns es path", OF this]
  show ?thesis by (simp add: pruneSelections_def empty_object_def)
qed

lemma hasExplicit_None:
  assumes "\<not> hasExplicitSelections S" "proto S = None"
  shows "obj_get_array S k = None"
proof (rule ccontr)
  assume a: "obj_get_array S k \<noteq> None"
  with assms(2) obtain xs where "map_of (own S) k = Some (JArr xs)"
    by (auto simp add: obj_get_array_def split: option.splits jsvalue.splits if_splits)
  then have "k \<in> set (map fst (own S))"
    by (metis map_of_eq_None_iff option.distinct(1) set_map)
  then have "k \<in> set (obj_keys S)"
    unfolding obj_keys_def obj_entries_def clearjunk_keys_set .
  with a assms(1) show False
    by (auto simp add: hasExplicitSelections_def list_ex_iff)
qed

lemma derive_no_edges:
  "(\<And>x. x \<in> set path \<Longrightarrow> \<not> has_edge es x) \<Longrightarrow> deriveSelections es acc path = Inr acc"
  by (induction path) simp_all

lemma selected_normalized:
  assumes "nodeById ns k = Some nd"
  shows "selectedEdgeIds (normalizeSelections ns es src) nd k = map JStr (uniqueSelection ns es src nd)"
proof -
  have "selectionAt (normalizeSelections ns es src) k = map JStr (uniqueSelection ns es src nd)"
    using assms by (simp add: normalize_selectionAt)
  moreover have "node_type nd = ''xor'' \<Longrightarrow> length (uniqueSelection ns es src nd) \<le> 1"
    by (rule uniqueSelection_xor)
  ultimately show ?thesis by (auto simp add: selectedEdgeIds_def Let_def)
qed

lemma uniqueSelection_pruned_last:
  assumes P: "\<not> has_node ns proto_key" and nd: "nodeById ns k = Some nd"
  shows "uniqueSelection ns es (pruneSelections ns es path (normalizeSelections ns es src)) nd =
     (if k \<in> set path then filter (activeEdgeIds ns es path) (uniqueSelection ns es src nd) else [])"
proof -
  have k: "node_id nd = k" using nodeById_id [OF nd] by simp
  have "length (filter (activeEdgeIds ns es path) (uniqueSelection ns es src nd)) \<le> 1"
    if "node_type nd = ''xor''"
    by (rule le_trans [OF length_filter_le uniqueSelection_xor [OF that]])
  then show ?thesis
    unfolding uniqueSelection_of_pruned [OF P nd k] Let_def by auto
qed

lemma followedAt_second:
  assumes D: "\<forall>e \<in> set es. \<not> has_node ns (edge_id e)" and P: "\<not> has_node ns proto_key"
    and k: "k \<in> set (walk ns es (normalizeSelections ns es src) r [])"
    and nd: "nodeById ns k = Some nd"
  shows "followedAt ns es
           (normalizeSelections ns es
              (pruneSelections ns es (walk ns es (normalizeSelections ns es src) r [])
                 (normalizeSelections ns es src))) k nd
         = followedAt ns es (normalizeSelections ns es src) k nd"
proof -
  let ?N1 = "normalizeSelections ns es src"
  let ?P1 = "walk ns es ?N1 r []"
  let ?u = "uniqueSelection ns es src nd"
  let ?act = "activeEdgeIds ns es ?P1"
  have a: "selectedEdgeIds ?N1 nd k = map JStr ?u"
    by (rule selected_normalized [OF nd])
  have b: "selectedEdgeIds (normalizeSelections ns es (pruneSelections ns es ?P1 ?N1)) nd k
      = map JStr (filter ?act ?u)"
    unfolding selected_normalized [OF nd] uniqueSelection_pruned_last [OF P nd] using k by simp
  have c: "List.map_filter (\<lambda>x. followed ns es k (JStr x)) (filter ?act ?u)
      = List.map_filter (\<lambda>x. followed ns es k (JStr x)) ?u"
  proof (rule map_filter_filter)
    fix x assume x: "x \<in> set ?u" and "followed ns es k (JStr x) \<noteq> None"
    then obtain e t where f: "followed ns es k (JStr x) = Some (e, t)" by auto
    from x f have mem: "(e, t) \<in> set (followedAt ns es ?N1 k nd)"
      unfolding followedAt_def a by (auto simp add: map_filter_mem)
    from f have "edgeById es x = Some e"
      by (auto simp add: followed_def split: option.splits if_splits)
    then have ex: "edge_id e = x" and ees: "e \<in> set es"
      using edgeById_id by blast+
    from walk_expanded [OF D k _ nd mem] ex have "x \<in> set ?P1" by simp
    moreover from D ees ex have "\<not> has_node ns x" by blast
    moreover from ees ex have "has_edge es x" by (auto simp add: has_edge_def)
    ultimately show "?act x" by (simp add: activeEdgeIds_def)
  qed
  show ?thesis
    unfolding followedAt_def a b by (simp add: map_filter_map c)
qed

lemma walk_second:
  assumes D: "\<forall>e \<in> set es. \<not> has_node ns (edge_id e)" and P: "\<not> has_node ns proto_key"
  shows "walk ns es
           (normalizeSelections ns es
              (pruneSelections ns es (walk ns es (normalizeSelections ns es src) r [])
                 (normalizeSelections ns es src))) r []
         = walk ns es (normalizeSelections ns es src) r []"
  by (rule walk_cong [OF subset_refl]) (rule followedAt_second [OF D P])

lemma prune_second:
  assumes P: "\<not> has_node ns proto_key"
  shows "obj_get_array
           (pruneSelections ns es path
              (normalizeSelections ns es (pruneSelections ns es path (normalizeSelections ns es src)))) k
         = obj_get_array (pruneSelections ns es path (normalizeSelections ns es src)) k"
proof (cases "nodeById ns k")
  case None
  then show ?thesis by (simp add: pruned_normalized_get [OF P])
next
  case (Some nd)
  show ?thesis
    unfolding pruned_normalized_get [OF P] Some option.case
      uniqueSelection_pruned_last [OF P Some]
    by simp
qed

lemma no_selection_no_edge:
  assumes D: "\<forall>e \<in> set es. \<not> has_node ns (edge_id e)" and P: "\<not> has_node ns proto_key"
    and E: "\<not> hasExplicitSelections
              (pruneSelections ns es (walk ns es (normalizeSelections ns es src) r [])
                 (normalizeSelections ns es src))"
    and x: "x \<in> set (walk ns es (normalizeSelections ns es src) r [])"
  shows "\<not> has_edge es x"
proof
  let ?N1 = "normalizeSelections ns es src"
  let ?P1 = "walk ns es ?N1 r []"
  assume he: "has_edge es x"
  with D have "\<not> has_node ns x" by (auto simp add: has_edge_def)
  from walk_edge_origin [OF x this] obtain k nd e t where
    k: "k \<in> set ?P1" and nd: "nodeById ns k = Some nd"
    and mem: "(e, t) \<in> set (followedAt ns es ?N1 k nd)" and ex: "edge_id e = x"
    by blast
  from followedAt_D(5) [OF mem] have "x \<in> set (uniqueSelection ns es src nd)"
    unfolding selected_normalized [OF nd] ex by auto
  moreover have "activeEdgeIds ns es ?P1 x"
    using x he \<open>\<not> has_node ns x\<close> by (simp add: activeEdgeIds_def)
  ultimately have "filter (activeEdgeIds ns es ?P1) (uniqueSelection ns es src nd) \<noteq> []"
    by (auto simp add: filter_empty_conv)
  with k nd have "obj_get_array (pruneSelections ns es ?P1 ?N1) k \<noteq> None"
    by (simp add: pruned_normalized_get [OF P])
  with hasExplicit_None [OF E proto_prune [OF P], of k] show False by simp
qed

lemma rebuild_simps:
  "nodes g = [] \<or> node_id (hd (nodes g)) = [] \<Longrightarrow>
     rebuildActivePathFromSelections g
       = g\<lparr>ui := (ui g)\<lparr>activePath := [], activeSelections := empty_object\<rparr>\<rparr>"
  "nodes g \<noteq> [] \<Longrightarrow> node_id (hd (nodes g)) \<noteq> [] \<Longrightarrow>
     rebuildActivePathFromSelections g
       = g\<lparr>ui := (ui g)\<lparr>activePath :=
                    walk (nodes g) (edges g) (getActiveSelections g) (node_id (hd (nodes g))) [],
                  activeSelections :=
                    pruneSelections (nodes g) (edges g)
                      (walk (nodes g) (edges g) (getActiveSelections g) (node_id (hd (nodes g))) [])
                      (getActiveSelections g)\<rparr>\<rparr>"
  by (auto simp add: rebuildActivePathFromSelections_def Let_def split: list.split)

lemma hasExplicit_empty: "\<not> hasExplicitSelections empty_object"
  by (simp add: hasExplicitSelections_def obj_keys_def obj_entries_def empty_object_def)

lemma selections_object_Nil: "selections_object [] = empty_object"
  by (simp add: selections_object_def empty_object_def)

subsection \<open>The walk under changed selections\<close>

lemma followedAt_cong:
  "selectionAt a n = selectionAt b n \<Longrightarrow> followedAt ns es a n nd = followedAt ns es b n nd"
  by (simp add: followedAt_def selectedEdgeIds_def)

lemma walk_set_unfold:
  assumes "nodeById ns n = Some nd" "n \<notin> set st"
  shows "set (walk ns es sel n st) =
           insert n (\<Union>(e, t) \<in> set (followedAt ns es sel n nd).
                        insert (edge_id e) (set (walk ns es sel t (n # st))))"
  by (auto simp add: walk_unfold [OF assms])

lemma walk_set_cong:
  assumes "set (walk ns es sel n st) \<subseteq> P"
    and "\<And>k nd. k \<in> P \<Longrightarrow> nodeById ns k = Some nd \<Longrightarrow>
           set (followedAt ns es sel' k nd) = set (followedAt ns es sel k nd)"
  shows "set (walk ns es sel' n st) = set (walk ns es sel n st)"
  using assms(1)
proof (induction "card (set (map node_id ns) - set st)" arbitrary: n st rule: less_induct)
  case less
  show ?case
  proof (cases "nodeById ns n")
    case None
    then show ?thesis by (simp add: walk_stop)
  next
    case (Some nd)
    show ?thesis
    proof (cases "n \<in> set st")
      case True
      with Some show ?thesis by (simp add: walk_stop)
    next
      case False
      have nP: "n \<in> P" using less.prems by (auto simp add: walk_unfold [OF Some False])
      have eq: "set (followedAt ns es sel' n nd) = set (followedAt ns es sel n nd)"
        by (rule assms(2) [OF nP Some])
      have sub: "set (walk ns es sel' t (n # st)) = set (walk ns es sel t (n # st))"
        if "(e, t) \<in> set (followedAt ns es sel n nd)" for e t
      proof (rule less.hyps)
        show "card (set (map node_id ns) - set (n # st)) < card (set (map node_id ns) - set st)"
          by (rule walk_measure_less [OF Some False])
        show "set (walk ns es sel t (n # st)) \<subseteq> P"
          using walk_sub_entries(1) [OF Some False that] less.prems by blast
      qed
      show ?thesis
        unfolding walk_set_unfold [OF Some False] eq using sub by auto
    qed
  qed
qed

lemma walk_reach:
  assumes D: "\<forall>e \<in> set es. \<not> has_node ns (edge_id e)" and hk: "has_node ns k"
    and off: "\<And>n nd. n \<noteq> k \<Longrightarrow> followedAt ns es sel' n nd = followedAt ns es sel n nd"
    and "k \<in> set (walk ns es sel n st)"
  shows "k \<in> set (walk ns es sel' n st)"
  using assms(4)
proof (induction "card (set (map node_id ns) - set st)" arbitrary: n st rule: less_induct)
  case less
  show ?case
  proof (cases "nodeById ns n")
    case None
    with less.prems show ?thesis by (simp add: walk_stop)
  next
    case (Some nd)
    show ?thesis
    proof (cases "n \<in> set st")
      case True
      with Some less.prems show ?thesis by (simp add: walk_stop)
    next
      case False
      show ?thesis
      proof (cases "n = k")
        case True
        have "n \<in> set (walk ns es sel' n st)"
          by (simp add: walk_unfold [OF Some False])
        with True show ?thesis by simp
      next
        case nk: False
        have eq: "followedAt ns es sel' n nd = followedAt ns es sel n nd"
          by (rule off [OF nk])
        from less.prems nk consider
            e t where "(e, t) \<in> set (followedAt ns es sel n nd)" "k = edge_id e"
          | e t where "(e, t) \<in> set (followedAt ns es sel n nd)" "k \<in> set (walk ns es sel t (n # st))"
          by (auto simp add: walk_unfold [OF Some False])
        then show ?thesis
        proof cases
          case 1
          from followedAt_D(1) [OF 1(1)] D 1(2) hk show ?thesis by blast
        next
          case 2
          from less.hyps [OF walk_measure_less [OF Some False] 2(2)]
          have "k \<in> set (walk ns es sel' t (n # st))" .
          moreover from 2(1) have "(e, t) \<in> set (followedAt ns es sel' n nd)"
            by (simp add: eq)
          ultimately show ?thesis
            using walk_sub_entries(1) [OF Some False, of e t es sel'] by blast
        qed
      qed
    qed
  qed
qed

lemma push_unique_prefix: "\<exists>zs. push_unique ok acc xs = acc @ zs"
proof (induction xs arbitrary: acc)
  case Nil
  show ?case by simp
next
  case (Cons x xs)
  show ?case
    using Cons.IH [of acc] Cons.IH [of "acc @ [case x of JStr s \<Rightarrow> s]"]
    by (cases x) (auto split: if_splits)
qed

lemma push_unique_head:
  assumes "ok y"
  shows "\<exists>zs. push_unique ok [] (JStr y # xs) = y # zs"
  using push_unique_prefix [of ok "[y]" xs] assms by simp

lemma prune_selectionAt:
  assumes P: "\<not> has_node ns proto_key" and n: "n \<in> set path" "has_node ns n"
  shows "selectionAt (pruneSelections ns es path s) n
           = map JStr (push_unique (activeEdgeIds ns es path) [] (selectionAt s n))"
proof -
  from P n(2) have np: "n \<noteq> proto_key" by auto
  from n have a: "activeNodeIds ns path n" by (simp add: activeNodeIds_def)
  have g: "obj_get_array (pruneSelections ns es path s) n =
      (case map_of (own s) n of
         Some (JArr ys) \<Rightarrow>
           if push_unique (activeEdgeIds ns es path) [] ys \<noteq> []
           then Some (map JStr (push_unique (activeEdgeIds ns es path) [] ys)) else None
       | _ \<Rightarrow> None)"
    unfolding prune_get using a by (simp split: option.split jsvalue.split)
  have h: "selectionAt s n = (case map_of (own s) n of Some (JArr ys) \<Rightarrow> ys | _ \<Rightarrow> [])"
    using np by (simp add: selectionAt_def obj_get_array_def split: option.split jsvalue.split)
  show ?thesis
    unfolding h unfolding selectionAt_def g
    by (simp split: option.split jsvalue.split)
qed

lemma prune_selectionAt_inactive:
  "\<not> activeNodeIds ns path n \<Longrightarrow> selectionAt (pruneSelections ns es path s) n = []"
  by (simp add: selectionAt_def prune_get split: option.split jsvalue.split)

lemma followed_JStr:
  assumes "followed ns es n x = Some (e, t)"
  shows "x = JStr (edge_id e)" and "edgeById es (edge_id e) = Some e" and "edge_from e = n"
    and "edge_to e = Some t" and "has_node ns t" and "e \<in> set es"
proof -
  from assms obtain y where x: "x = JStr y" and eb: "edgeById es y = Some e"
    and f: "edge_from e = n" and t: "edge_to e = Some t" and h: "has_node ns t"
    by (cases x) (auto simp add: followed_def split: option.splits if_splits)
  from edgeById_id [OF eb] have "edge_id e = y" "e \<in> set es" by simp_all
  with x eb f t h show "x = JStr (edge_id e)" "edgeById es (edge_id e) = Some e" "edge_from e = n"
    "edge_to e = Some t" "has_node ns t" "e \<in> set es" by simp_all
qed

lemma pruned_followed_sub:
  assumes D: "\<forall>e \<in> set es. \<not> has_node ns (edge_id e)" and P: "\<not> has_node ns proto_key"
    and n: "n \<in> set (walk ns es s r [])" and nd: "nodeById ns n = Some nd"
    and p: "(e, t) \<in> set (followedAt ns es (pruneSelections ns es (walk ns es s r []) s) n nd)"
  shows "(e, t) \<in> set (followedAt ns es s n nd)"
proof -
  let ?path = "walk ns es s r []"
  let ?act = "activeEdgeIds ns es ?path"
  let ?raw = "selectionAt s n"
  let ?pu = "push_unique ?act [] ?raw"
  let ?s' = "pruneSelections ns es ?path s"
  have hn: "has_node ns n" using nd by (rule nodeById_has_node)
  have sel': "selectionAt ?s' n = map JStr ?pu"
    by (rule prune_selectionAt [OF P n hn])
  from p obtain x where x: "x \<in> set (selectedEdgeIds ?s' nd n)"
    and f: "followed ns es n x = Some (e, t)"
    unfolding followedAt_def map_filter_mem by blast
  from x have "x \<in> set (selectionAt ?s' n)"
    unfolding selectedEdgeIds_def Let_def by (cases "node_type nd = ''xor''") (auto dest: in_set_takeD)
  then have "x \<in> set (map JStr ?pu)" unfolding sel' .
  then have "edge_id e \<in> set ?pu"
    unfolding followed_JStr(1) [OF f] by auto
  then have act: "?act (edge_id e)" unfolding push_unique_set by simp
  then have "edge_id e \<in> set ?path" "\<not> has_node ns (edge_id e)"
    unfolding activeEdgeIds_def by simp_all
  from walk_edge_origin [OF this] obtain m nd' e' t' where
    m: "nodeById ns m = Some nd'" and mem: "(e', t') \<in> set (followedAt ns es s m nd')"
    and ee: "edge_id e' = edge_id e"
    by blast
  from followedAt_D(6) [OF mem] have "edgeById es (edge_id e) = Some e'" unfolding ee .
  with followed_JStr(2) [OF f] have e': "e' = e" by simp
  from followedAt_D(3) [OF mem] followed_JStr(3) [OF f] have mn: "m = n" unfolding e' by simp
  from m nd have ndd: "nd' = nd" unfolding mn by simp
  from followedAt_D(4) [OF mem] followed_JStr(4) [OF f] have "t' = t" unfolding e' by simp
  with mem show ?thesis unfolding e' mn ndd by simp
qed

lemma pruned_followed_sup:
  assumes D: "\<forall>e \<in> set es. \<not> has_node ns (edge_id e)" and P: "\<not> has_node ns proto_key"
    and n: "n \<in> set (walk ns es s r [])" and nd: "nodeById ns n = Some nd"
    and mem: "(e, t) \<in> set (followedAt ns es s n nd)"
  shows "(e, t) \<in> set (followedAt ns es (pruneSelections ns es (walk ns es s r []) s) n nd)"
proof -
  let ?path = "walk ns es s r []"
  let ?act = "activeEdgeIds ns es ?path"
  let ?raw = "selectionAt s n"
  let ?pu = "push_unique ?act [] ?raw"
  let ?s' = "pruneSelections ns es ?path s"
  have hn: "has_node ns n" using nd by (rule nodeById_has_node)
  have sel': "selectionAt ?s' n = map JStr ?pu"
    by (rule prune_selectionAt [OF P n hn])
  from mem obtain x where x: "x \<in> set (selectedEdgeIds s nd n)"
    and f: "followed ns es n x = Some (e, t)"
    unfolding followedAt_def map_filter_mem by blast
  have xe: "x = JStr (edge_id e)" by (rule followed_JStr(1) [OF f])
  have "n \<notin> set []" by simp
  from walk_expanded [OF D n this nd mem] have inp: "edge_id e \<in> set ?path" .
  from followed_JStr(6) [OF f] D have nn: "\<not> has_node ns (edge_id e)" by blast
  from followed_JStr(6) [OF f] have he: "has_edge es (edge_id e)"
    unfolding has_edge_def by simp
  from inp nn he have act: "?act (edge_id e)" unfolding activeEdgeIds_def by simp
  have "JStr (edge_id e) \<in> set (selectedEdgeIds ?s' nd n)"
  proof (cases "node_type nd = ''xor''")
    case True
    with x have "x \<in> set (take 1 ?raw)" unfolding selectedEdgeIds_def Let_def by simp
    then obtain rest where raw: "?raw = x # rest"
      by (cases ?raw) (simp_all split: if_splits)
    from push_unique_head [of ?act "edge_id e" rest, OF act] obtain zs where
      "push_unique ?act [] (JStr (edge_id e) # rest) = edge_id e # zs" by blast
    then have "?pu = edge_id e # zs" unfolding raw xe .
    then have "selectionAt ?s' n = JStr (edge_id e) # map JStr zs" unfolding sel' by simp
    with True show ?thesis unfolding selectedEdgeIds_def Let_def by simp
  next
    case False
    with x have "JStr (edge_id e) \<in> set ?raw" unfolding selectedEdgeIds_def Let_def xe by simp
    with act have "edge_id e \<in> set ?pu" unfolding push_unique_set by simp
    then have "JStr (edge_id e) \<in> set (selectionAt ?s' n)" unfolding sel' by simp
    with False show ?thesis unfolding selectedEdgeIds_def Let_def by simp
  qed
  with f show ?thesis
    unfolding followedAt_def map_filter_mem xe by blast
qed

lemma pruned_followed:
  assumes D: "\<forall>e \<in> set es. \<not> has_node ns (edge_id e)" and P: "\<not> has_node ns proto_key"
    and n: "n \<in> set (walk ns es s r [])" and nd: "nodeById ns n = Some nd"
  shows "set (followedAt ns es (pruneSelections ns es (walk ns es s r []) s) n nd)
           = set (followedAt ns es s n nd)"
  using pruned_followed_sub [OF D P n nd] pruned_followed_sup [OF D P n nd] by auto

lemma walk_repruned:
  assumes D: "\<forall>e \<in> set es. \<not> has_node ns (edge_id e)" and P: "\<not> has_node ns proto_key"
    and each: "\<And>n. selectionAt s' n = selectionAt (pruneSelections ns es (walk ns es s r []) s) n
                  \<or> selectionAt s' n = selectionAt s n"
  shows "set (walk ns es s' r []) = set (walk ns es s r [])"
proof (rule walk_set_cong [OF subset_refl])
  fix k nd assume k: "k \<in> set (walk ns es s r [])" and nd: "nodeById ns k = Some nd"
  from each [of k] show "set (followedAt ns es s' k nd) = set (followedAt ns es s k nd)"
  proof
    assume "selectionAt s' k = selectionAt (pruneSelections ns es (walk ns es s r []) s) k"
    from followedAt_cong [OF this] pruned_followed [OF D P k nd] show ?thesis by simp
  next
    assume "selectionAt s' k = selectionAt s k"
    from followedAt_cong [OF this] show ?thesis by simp
  qed
qed

subsection \<open>Toggling a choice of an XOR node twice\<close>

lemma selectionAt_set:
  "selectionAt (obj_set_array s k v) j = (if j = k then map JStr v else selectionAt s j)"
  by (simp add: selectionAt_def obj_get_set)

lemma selectionAt_delete:
  assumes "k \<noteq> proto_key"
  shows "selectionAt (obj_delete s k) j = (if j = k then [] else selectionAt s j)"
  using assms
  by (auto simp add: selectionAt_def obj_get_array_def obj_delete_def delete_conv'
      split: option.split jsvalue.split)

lemma toggle_xor:
  "fst (toggleSelection s ''xor'' k eid) =
     (if push_unique (\<lambda>x. x \<noteq> []) [] (selectionAt s k) = [eid] then obj_delete s k
      else obj_set_array s k [eid])"
  by (simp add: toggleSelection_def Let_def)

lemma activeEdgeIds_cong:
  "set p = set q \<Longrightarrow> activeEdgeIds ns es p = activeEdgeIds ns es q"
  by (rule ext) (simp add: activeEdgeIds_def)

lemma pruned_single:
  assumes P: "\<not> has_node ns proto_key" and hk: "has_node ns k"
    and s: "selectionAt s k = [JStr eid]"
  shows "selectionAt (pruneSelections ns es path s) k =
           (if k \<in> set path \<and> activeEdgeIds ns es path eid then [JStr eid] else [])"
proof (cases "k \<in> set path")
  case True
  from prune_selectionAt [OF P True hk, of es s] True show ?thesis
    by (simp add: s)
next
  case False
  then have "\<not> activeNodeIds ns path k" by (simp add: activeNodeIds_def)
  from prune_selectionAt_inactive [OF this] False show ?thesis by simp
qed

lemma pruned_none:
  assumes P: "\<not> has_node ns proto_key" and hk: "has_node ns k"
    and s: "selectionAt s k = []"
  shows "selectionAt (pruneSelections ns es path s) k = []"
proof (cases "k \<in> set path")
  case True
  from prune_selectionAt [OF P True hk, of es s] show ?thesis
    by (simp add: s)
next
  case False
  then have "\<not> activeNodeIds ns path k" by (simp add: activeNodeIds_def)
  from prune_selectionAt_inactive [OF this] show ?thesis .
qed

lemma xor_twice:
  fixes ns es r k eid s0
  defines "cur0 \<equiv> push_unique (\<lambda>x. x \<noteq> []) [] (selectionAt s0 k)"
  assumes D: "\<forall>e \<in> set es. \<not> has_node ns (edge_id e)" and P: "\<not> has_node ns proto_key"
    and hk: "has_node ns k" and ne: "eid \<noteq> []"
    and eb: "edgeById es eid = Some e" and ef: "edge_from e = k"
    and et: "edge_to e = Some t" and ht: "has_node ns t"
    and on_path: "cur0 = [eid] \<Longrightarrow> k \<in> set (walk ns es s0 r [])"
  shows "selectionAt (xorToggled ns es r k eid (xorToggled ns es r k eid s0)) k
           = (if cur0 = [eid] then [JStr eid] else [])"
proof -
  let ?s1' = "fst (toggleSelection s0 ''xor'' k eid)"
  let ?p1 = "walk ns es ?s1' r []"
  let ?s1 = "pruneSelections ns es ?p1 ?s1'"
  let ?s2' = "fst (toggleSelection ?s1 ''xor'' k eid)"
  let ?p2 = "walk ns es ?s2' r []"
  let ?s2 = "pruneSelections ns es ?p2 ?s2'"
  have unfold: "xorToggled ns es r k eid (xorToggled ns es r k eid s0) = ?s2"
    by (simp add: xorToggled_def Let_def)
  from P hk have kp: "k \<noteq> proto_key" by auto
  have eid: "edge_id e = eid" and ees: "e \<in> set es"
    using edgeById_id [OF eb] by simp_all
  from D ees eid have nn: "\<not> has_node ns eid" by blast
  from ees eid have he: "has_edge es eid" by (auto simp add: has_edge_def)
  have fol: "followed ns es k (JStr eid) = Some (e, t)"
    by (simp add: followed_def eb et ef ht)
  show ?thesis
  proof (cases "cur0 = [eid]")
    case True
    have s1': "?s1' = obj_delete s0 k"
      using True by (simp add: toggle_xor cur0_def)
    have s1k: "selectionAt ?s1 k = []"
      by (rule pruned_none [OF P hk]) (simp add: s1' selectionAt_delete [OF kp])
    have s2': "?s2' = obj_set_array ?s1 k [eid]"
      unfolding toggle_xor [of ?s1 k eid] s1k using ne by simp
    have s2'k: "selectionAt ?s2' k = [JStr eid]"
      unfolding s2' by (simp add: selectionAt_set)
    have k0: "k \<in> set (walk ns es s0 r [])" using True by (rule on_path)
    have "k \<in> set ?p1"
    proof (rule walk_reach [OF D hk _ k0])
      fix n nd assume "n \<noteq> k"
      then have "selectionAt ?s1' n = selectionAt s0 n"
        by (simp add: s1' selectionAt_delete [OF kp])
      then show "followedAt ns es ?s1' n nd = followedAt ns es s0 n nd"
        by (rule followedAt_cong)
    qed
    moreover have "set (walk ns es ?s1 r []) = set ?p1"
      by (rule walk_repruned [OF D P]) simp
    ultimately have k1: "k \<in> set (walk ns es ?s1 r [])" by simp
    have kp2: "k \<in> set ?p2"
    proof (rule walk_reach [OF D hk _ k1])
      fix n nd assume "n \<noteq> k"
      then have "selectionAt ?s2' n = selectionAt ?s1 n"
        unfolding s2' by (simp add: selectionAt_set)
      then show "followedAt ns es ?s2' n nd = followedAt ns es ?s1 n nd"
        by (rule followedAt_cong)
    qed
    from hk obtain nd where nd: "nodeById ns k = Some nd"
      by (auto simp add: has_node_nodeById)
    have "selectedEdgeIds ?s2' nd k = [JStr eid]"
      unfolding selectedEdgeIds_def s2'k Let_def by simp
    then have mem: "(e, t) \<in> set (followedAt ns es ?s2' k nd)"
      by (simp add: followedAt_def List.map_filter_simps fol)
    have "k \<notin> set []" by simp
    from walk_expanded [OF D kp2 this nd mem] have "eid \<in> set ?p2" by (simp add: eid)
    with nn he have act: "activeEdgeIds ns es ?p2 eid" by (simp add: activeEdgeIds_def)
    have "selectionAt ?s2 k = [JStr eid]"
      using pruned_single [OF P hk s2'k, of es ?p2] kp2 act by simp
    with True show ?thesis by (simp add: unfold)
  next
    case False
    have s1': "?s1' = obj_set_array s0 k [eid]"
      using False by (simp add: toggle_xor cur0_def)
    have s1'k: "selectionAt ?s1' k = [JStr eid]"
      by (simp add: s1' selectionAt_set)
    have s1k: "selectionAt ?s1 k =
        (if k \<in> set ?p1 \<and> activeEdgeIds ns es ?p1 eid then [JStr eid] else [])"
      by (rule pruned_single [OF P hk s1'k])
    have "selectionAt ?s2 k = []"
    proof (cases "k \<in> set ?p1 \<and> activeEdgeIds ns es ?p1 eid")
      case True
      with s1k have sel: "selectionAt ?s1 k = [JStr eid]" by simp
      have del: "?s2' = obj_delete ?s1 k"
        unfolding toggle_xor [of ?s1 k eid] sel using ne by simp
      have "selectionAt ?s2' k = []"
        unfolding del by (simp add: selectionAt_delete [OF kp])
      then show ?thesis by (rule pruned_none [OF P hk])
    next
      case inactive: False
      with s1k have sel: "selectionAt ?s1 k = []" by simp
      have s2': "?s2' = obj_set_array ?s1 k [eid]"
        unfolding toggle_xor [of ?s1 k eid] sel using ne by simp
      have s2'k: "selectionAt ?s2' k = [JStr eid]"
        unfolding s2' by (simp add: selectionAt_set)
      have same: "set ?p2 = set ?p1"
      proof (rule walk_repruned [OF D P])
        fix n
        show "selectionAt ?s2' n = selectionAt ?s1 n \<or> selectionAt ?s2' n = selectionAt ?s1' n"
        proof (cases "n = k")
          case True
          then show ?thesis using s2'k s1'k by simp
        next
          case False
          then have "selectionAt ?s2' n = selectionAt ?s1 n"
            unfolding s2' by (simp add: selectionAt_set)
          then show ?thesis ..
        qed
      qed
      have "selectionAt ?s2 k =
          (if k \<in> set ?p2 \<and> activeEdgeIds ns es ?p2 eid then [JStr eid] else [])"
        by (rule pruned_single [OF P hk s2'k])
      with inactive show ?thesis
        unfolding same activeEdgeIds_cong [OF same] by simp
    qed
    with False show ?thesis by (simp add: unfold)
  qed
qed

lemma edgeById_find:
  assumes "distinct (map edge_id es)" and "find (\<lambda>e. edge_id e = eid) es = Some e"
  shows "edgeById es eid = Some e"
proof -
  from assms(2) have "e \<in> set es" "edge_id e = eid"
    by (auto simp add: find_Some_iff)
  then have "(eid, e) \<in> set (rev (map (\<lambda>e. (edge_id e, e)) es))" by auto
  moreover from assms(1) have "distinct (map fst (rev (map (\<lambda>e. (edge_id e, e)) es)))"
    by (simp add: rev_map [symmetric] comp_def)
  ultimately show ?thesis
    unfolding edgeById_def by (rule map_of_is_SomeI [rotated])
qed

lemma toggled_graph:
  assumes "nodes g \<noteq> []" "node_id (hd (nodes g)) \<noteq> []"
  shows "rebuildActivePathFromSelections
           (g\<lparr>ui := (ui g)\<lparr>activeSelections :=
                  fst (toggleSelection (getActiveSelections g) ''xor'' k eid)\<rparr>\<rparr>)
         = g\<lparr>ui := (ui g)\<lparr>activePath :=
                    walk (nodes g) (edges g)
                      (fst (toggleSelection (activeSelections (ui g)) ''xor'' k eid))
                      (node_id (hd (nodes g))) [],
                  activeSelections :=
                    xorToggled (nodes g) (edges g) (node_id (hd (nodes g))) k eid
                      (activeSelections (ui g))\<rparr>\<rparr>"
proof -
  let ?h = "g\<lparr>ui := (ui g)\<lparr>activeSelections :=
                  fst (toggleSelection (getActiveSelections g) ''xor'' k eid)\<rparr>\<rparr>"
  from assms have "nodes ?h \<noteq> []" "node_id (hd (nodes ?h)) \<noteq> []" by simp_all
  from rebuild_simps(2) [OF this] show ?thesis
    by (simp add: getActiveSelections_def xorToggled_def Let_def)
qed

subsection \<open>The identifiers of a loaded graph\<close>

text \<open>
  \<open>normalizeGraph\<close> draws a new identifier for a node or an edge whose identifier is taken, and
  the enforcer keeps the identifiers: in a graph that \<open>normalizeGraph\<close> returns, no two nodes
  share an id, and no two edges do.
\<close>

lemma untilUnused_unused:
  assumes "untilUnused rnd prefix used ident n = Some r"
  shows "fst r \<notin> set used"
proof (rule untilUnused.raw_induct
    [where P = "\<lambda>rnd prefix used ident n r. fst r \<notin> set used", OF _ assms])
  fix f :: "(nat \<Rightarrow> string) \<Rightarrow> string \<Rightarrow> string list \<Rightarrow> string \<Rightarrow> nat \<Rightarrow> (string \<times> nat) option"
    and rnd prefix used ident n r
  assume "\<And>rnd prefix used ident n r. f rnd prefix used ident n = Some r \<Longrightarrow> fst r \<notin> set used"
    and "(if ident \<in> set used
          then f rnd prefix used (fst (uid rnd prefix n)) (snd (uid rnd prefix n))
          else Some (ident, n)) = Some r"
  then show "fst r \<notin> set used"
    by (auto split: if_splits)
qed

lemma normalizeNodes_distinct:
  assumes "normalizeNodes numstr rnd raws index ns nodeIdSet n = Some (Inr (ns', m))"
    and "distinct (map node_id ns)" and "set (map node_id ns) \<subseteq> set nodeIdSet"
  shows "distinct (map node_id ns')"
  using assms
proof (induction raws arbitrary: index ns nodeIdSet n)
  case Nil
  then show ?case by simp
next
  case (Cons rawNode rest)
  show ?case
  proof (cases "is_object rawNode")
    case False
    with Cons.prems have "normalizeNodes numstr rnd rest (Suc index) ns nodeIdSet n = Some (Inr (ns', m))"
      by simp
    from Cons.IH [OF this Cons.prems(2,3)] show ?thesis .
  next
    case True
    let ?u = "untilUnused rnd ''n'' nodeIdSet (fst (idOrFresh rnd ''n'' (js_prop rawNode ''id'') n))
            (snd (idOrFresh rnd ''n'' (js_prop rawNode ''id'') n))"
    from Cons.prems(1) True obtain nodeId n' where u: "?u = Some (nodeId, n')"
      by (cases ?u) auto
    let ?b = "normalizeButtons rnd (elements (js_prop rawNode ''buttons'')) [] [] n'"
    from Cons.prems(1) True u obtain buttons n'' where b: "?b = Some (buttons, n'')"
      by (cases ?b) auto
    let ?t = "normalizeNodeType numstr (js_prop rawNode ''type'')"
    from Cons.prems(1) True u b obtain nodeType where t: "?t = Inr nodeType"
      by (cases ?t) auto
    from Cons.prems(1) True u b t
    have "\<exists>nd. normalizeNodes numstr rnd rest (Suc index) (ns @ [nd]) (nodeIdSet @ [nodeId]) n''
                = Some (Inr (ns', m)) \<and> node_id nd = nodeId"
      apply simp
      apply (rule exI)
      apply (rule conjI)
       apply assumption
      apply simp
      done
    then obtain nd where nd: "node_id nd = nodeId"
      and r: "normalizeNodes numstr rnd rest (Suc index) (ns @ [nd]) (nodeIdSet @ [nodeId]) n''
                = Some (Inr (ns', m))"
      by blast
    from untilUnused_unused [OF u] have "nodeId \<notin> set nodeIdSet" by simp
    with Cons.prems(2,3) nd have "distinct (map node_id (ns @ [nd]))"
      "set (map node_id (ns @ [nd])) \<subseteq> set (nodeIdSet @ [nodeId])"
      by auto
    from Cons.IH [OF r this] show ?thesis .
  qed
qed

lemma normalizeEdges_distinct:
  assumes "normalizeEdges rnd ns raws es edgeIdSet n = Some (es', m)"
    and "distinct (map edge_id es)" and "set (map edge_id es) \<subseteq> set edgeIdSet"
  shows "distinct (map edge_id es')"
  using assms
proof (induction raws arbitrary: es edgeIdSet n)
  case Nil
  then show ?case by simp
next
  case (Cons rawEdge rest)
  let ?u = "untilUnused rnd ''e'' edgeIdSet (fst (idOrFresh rnd ''e'' (js_prop rawEdge ''id'') n))
              (snd (idOrFresh rnd ''e'' (js_prop rawEdge ''id'') n))"
  show ?case
  proof (cases "normalizeEdges rnd ns rest es edgeIdSet n = Some (es', m)")
    case True
    from Cons.IH [OF this Cons.prems(2,3)] show ?thesis .
  next
    case False
    with Cons.prems(1) obtain edgeId n' where u: "?u = Some (edgeId, n')"
      by (cases ?u) (auto simp add: Let_def split: if_splits jsvalue.splits)
    from Cons.prems(1) False u
    have "\<exists>e n''. normalizeEdges rnd ns rest (es @ [e]) (edgeIdSet @ [edgeId]) n'' = Some (es', m)
            \<and> edge_id e = edgeId"
      apply (simp add: Let_def split: if_splits jsvalue.splits)
      apply (rule exI, rule conjI, rule exI, assumption, simp)
      done
    then obtain e n'' where e: "edge_id e = edgeId"
      and r: "normalizeEdges rnd ns rest (es @ [e]) (edgeIdSet @ [edgeId]) n'' = Some (es', m)"
      by blast
    from untilUnused_unused [OF u] have "edgeId \<notin> set edgeIdSet" by simp
    with Cons.prems(2,3) e have "distinct (map edge_id (es @ [e]))"
      "set (map edge_id (es @ [e])) \<subseteq> set (edgeIdSet @ [edgeId])"
      by auto
    from Cons.IH [OF r this] show ?thesis .
  qed
qed

lemma map_filter_distinct:
  assumes "\<And>x y. h x = Some y \<Longrightarrow> k y = k x" and "distinct (map k xs)"
  shows "distinct (map k (List.map_filter h xs))"
  using assms(2)
proof (induction xs)
  case Nil
  then show ?case by (simp add: List.map_filter_simps)
next
  case (Cons x xs)
  show ?case
  proof (cases "h x")
    case None
    with Cons show ?thesis by (simp add: List.map_filter_simps)
  next
    case (Some y)
    have "k y \<notin> k ` set (List.map_filter h xs)"
    proof
      assume "k y \<in> k ` set (List.map_filter h xs)"
      then obtain z where "z \<in> set (List.map_filter h xs)" "k z = k y" by auto
      then obtain x' where "x' \<in> set xs" "h x' = Some z" by (auto simp add: map_filter_mem)
      with assms(1) [OF Some] assms(1) [of x' z] \<open>k z = k y\<close> have "k x \<in> k ` set xs" by auto
      with Cons.prems show False by simp
    qed
    with Cons Some show ?thesis by (simp add: List.map_filter_simps)
  qed
qed

lemma normalizeGraph_distinct_ids:
  assumes "normalizeGraph numstr rnd clock input label = Some (Inr g)"
  shows "distinct (map node_id (nodes g))" and "distinct (map edge_id (edges g))"
proof -
  from assms obtain g0 ns n0 n1 ns' n2 es n3 where
    enf: "enforceGraphConsistency g0 = Inr g"
    and n: "normalizeNodes numstr rnd (elements (js_prop input ''nodes'')) 0 [] [] n0 = Some (Inr (ns, n1))"
    and ns': "nodes g0 = ns \<or> (\<exists>k. nodes g0 = [k])"
    and e: "normalizeEdges rnd (nodes g0) (elements (js_prop input ''edges'')) [] [] n2 = Some (es, n3)"
    and es: "edges g0 = es"
    by (auto simp add: normalizeGraph_def Let_def split: option.splits sum.splits prod.splits if_splits)
  from normalizeNodes_distinct [OF n] ns' have dn: "distinct (map node_id (nodes g0))" by auto
  from normalizeEdges_distinct [OF e] es have de: "distinct (map edge_id (edges g0))" by auto
  have "map node_id (nodes g) = map node_id (nodes g0)"
    unfolding enforce_InrD(2) [OF enf] by (simp add: enforceNode_frame comp_def)
  with dn show "distinct (map node_id (nodes g))" by simp
  show "distinct (map edge_id (edges g))"
    unfolding enforce_InrD(1) [OF enf]
    by (rule map_filter_distinct [where h = "sanitizeEdge (nodes g0)" and k = edge_id,
          OF sanitizeEdge_SomeD(3) de])
qed

section \<open>C9: the selected node after enforcement\<close>

text \<open>
  Claim C9. After every pass of \<open>enforceGraphConsistency\<close> that returns,
  \<open>ui.selectedNodeId\<close> is either null or the id of a node of \<open>graph.nodes\<close>: it is kept when it
  names a node of the graph and cleared to null when it is stale.
\<close>

theorem C9_selected_node_exists:
  assumes "enforceGraphConsistency g = Inr g'"
  shows "(selectedNodeId (ui g') = None
            \<or> (\<exists>n \<in> set (nodes g'). selectedNodeId (ui g') = Some (node_id n)))
         \<and> selectedNodeId (ui g') =
             (if \<exists>n \<in> set (nodes g). selectedNodeId (ui g) = Some (node_id n)
              then selectedNodeId (ui g) else None)"
proof -
  have ids: "node_id ` set (nodes g') = node_id ` set (nodes g)"
    using enforce_InrD(2)[OF assms] by (simp add: image_image enforceNode_frame)
  have sel: "selectedNodeId (ui g') =
      (case selectedNodeId (ui g) of
         Some k \<Rightarrow> if k \<in> node_id ` set (nodes g) then Some k else None
       | None \<Rightarrow> None)"
    using enforce_InrD(3)[OF assms] by (simp add: has_node_def split: option.split)
  show ?thesis
  proof (cases "selectedNodeId (ui g)")
    case None
    with sel show ?thesis by simp
  next
    case (Some k)
    show ?thesis
    proof (cases "k \<in> node_id ` set (nodes g)")
      case True
      with Some sel have "selectedNodeId (ui g') = Some k" by simp
      moreover from True ids have "k \<in> node_id ` set (nodes g')" by simp
      then obtain n where "n \<in> set (nodes g')" "node_id n = k" by auto
      ultimately show ?thesis using Some True by auto
    next
      case False
      with Some sel show ?thesis by auto
    qed
  qed
qed

theorem C9_selected_node_exists_witness:
  "enforceGraphConsistency scenario_A = Inr (projr (enforceGraphConsistency scenario_A))
   \<and> selectedNodeId (ui scenario_A) = Some ''gone''
   \<and> selectedNodeId (ui (projr (enforceGraphConsistency scenario_A))) = None"
proof -
  have h: "enforceGraphConsistency scenario_A = Inr (projr (enforceGraphConsistency scenario_A))"
    by (rule Inr_projr [OF scenario_A_enforced])
  have s: "selectedNodeId (ui scenario_A) = Some ''gone''"
    by (simp add: scenario_A_def mk_graph_def)
  have n: "\<not> (\<exists>n \<in> set (nodes scenario_A). selectedNodeId (ui scenario_A) = Some (node_id n))"
    by (simp add: scenario_A_def mk_graph_def mk_node_def)
  from C9_selected_node_exists [OF h] n s h show ?thesis by simp
qed

section \<open>C10: what enforcement leaves alone\<close>

text \<open>
  Claim C10. A pass of \<open>enforceGraphConsistency\<close> that returns never adds, removes or reorders
  nodes, and leaves the id, x, y and text of every node unchanged (type, colour and buttons may
  be rewritten); it also leaves the id, name, version, createdAt and updatedAt of the graph
  unchanged.
\<close>

theorem C10_enforcement_frame:
  assumes "enforceGraphConsistency g = Inr g'"
  shows "length (nodes g') = length (nodes g)
         \<and> map node_id (nodes g') = map node_id (nodes g)
         \<and> map node_x (nodes g') = map node_x (nodes g)
         \<and> map node_y (nodes g') = map node_y (nodes g)
         \<and> map node_text (nodes g') = map node_text (nodes g)
         \<and> graph_id g' = graph_id g \<and> graph_name g' = graph_name g
         \<and> graph_version g' = graph_version g
         \<and> createdAt g' = createdAt g \<and> updatedAt g' = updatedAt g"
  using enforce_InrD [OF assms] by (simp add: enforceNode_frame comp_def)

theorem C10_enforcement_frame_witness:
  "enforceGraphConsistency scenario_A = Inr (projr (enforceGraphConsistency scenario_A))
   \<and> map node_id (nodes (projr (enforceGraphConsistency scenario_A))) = [''S'', ''A'', ''B'']
   \<and> graph_id (projr (enforceGraphConsistency scenario_A)) = ''g_1''"
proof -
  have h: "enforceGraphConsistency scenario_A = Inr (projr (enforceGraphConsistency scenario_A))"
    by (rule Inr_projr [OF scenario_A_enforced])
  from C10_enforcement_frame [OF h] h show ?thesis
    by (simp add: scenario_A_def mk_graph_def mk_node_def)
qed

section \<open>C8: branch-type normalization\<close>

lemma lower_char_o: "lower_char c = CHR ''o'' \<longleftrightarrow> c = CHR ''o'' \<or> c = CHR ''O''"
  unfolding lower_char_def latin1_capitals_def latin1_smalls_def
  by (simp split: option.split)

lemma lower_char_r: "lower_char c = CHR ''r'' \<longleftrightarrow> c = CHR ''r'' \<or> c = CHR ''R''"
  unfolding lower_char_def latin1_capitals_def latin1_smalls_def
  by (simp split: option.split)

lemma toLowerCase_or:
  "toLowerCase m = ''or'' \<longleftrightarrow>
     (\<exists>c d. m = [c, d] \<and> (c = CHR ''o'' \<or> c = CHR ''O'') \<and> (d = CHR ''r'' \<or> d = CHR ''R''))"
  by (cases m; cases "tl m"; cases "tl (tl m)")
     (auto simp add: toLowerCase_def lower_char_o lower_char_r)

lemma trim_decomp:
  "s = takeWhile is_space s @ trim s @ rev (takeWhile is_space (rev (dropWhile is_space s)))"
proof -
  let ?d = "dropWhile is_space s"
  have "?d = rev (rev ?d)" by simp
  also have "\<dots> = rev (takeWhile is_space (rev ?d) @ dropWhile is_space (rev ?d))"
    by (simp only: takeWhile_dropWhile_id)
  also have "\<dots> = rev (dropWhile is_space (rev ?d)) @ rev (takeWhile is_space (rev ?d))"
    by (rule rev_append)
  finally have "?d = trim s @ rev (takeWhile is_space (rev ?d))"
    by (simp only: trim_def)
  then show ?thesis
    by (metis takeWhile_dropWhile_id)
qed

lemma trim_sandwich:
  assumes "list_all is_space pre" "list_all is_space post" "\<not> is_space c" "\<not> is_space d"
  shows "trim (pre @ c # mid @ d # post) = c # mid @ [d]"
proof -
  have 1: "dropWhile is_space (pre @ c # mid @ d # post) = c # mid @ d # post"
    using assms(1,3) by (simp add: dropWhile_append3 list_all_iff dropWhile_append)
  have 2: "dropWhile is_space (rev post @ d # rev mid @ [c]) = d # rev mid @ [c]"
    using assms(2,4) by (simp add: list_all_iff dropWhile_append)
  show ?thesis by (simp add: trim_def 1 2)
qed

lemma not_space_or: "c = CHR ''o'' \<or> c = CHR ''O'' \<or> c = CHR ''r'' \<or> c = CHR ''R'' \<Longrightarrow> \<not> is_space c"
  by (auto simp add: is_space_def)

lemma or_text_iff:
  "toLowerCase (trim s) = ''or'' \<longleftrightarrow>
     (\<exists>pre c d post. s = pre @ [c, d] @ post \<and> list_all is_space pre \<and> list_all is_space post
        \<and> (c = CHR ''o'' \<or> c = CHR ''O'') \<and> (d = CHR ''r'' \<or> d = CHR ''R''))"
  (is "?L \<longleftrightarrow> ?R")
proof
  assume ?L
  then obtain c d where t: "trim s = [c, d]" and c: "c = CHR ''o'' \<or> c = CHR ''O''"
    and d: "d = CHR ''r'' \<or> d = CHR ''R''"
    unfolding toLowerCase_or by blast
  let ?pre = "takeWhile is_space s"
  let ?post = "rev (takeWhile is_space (rev (dropWhile is_space s)))"
  have "s = ?pre @ [c, d] @ ?post" using trim_decomp [of s] t by simp
  moreover have "list_all is_space ?pre" by (simp add: list_all_iff) (meson set_takeWhileD)
  moreover have "list_all is_space ?post" by (simp add: list_all_iff) (meson set_takeWhileD)
  ultimately show ?R using c d by blast
next
  assume ?R
  then obtain pre c d post where s: "s = pre @ [c, d] @ post"
    and sp: "list_all is_space pre" "list_all is_space post"
    and c: "c = CHR ''o'' \<or> c = CHR ''O''" and d: "d = CHR ''r'' \<or> d = CHR ''R''"
    by blast
  have "trim s = [c, d]"
    using trim_sandwich [OF sp, where c = c and d = d and mid = "[]"] not_space_or [of c]
      not_space_or [of d] c d s by auto
  with c d show ?L unfolding toLowerCase_or by blast
qed

text \<open>
  Claim C8, as amended. For every raw value that \<open>String(value || '')\<close> renders as a text,
  the normalized node type is \<open>or\<close> exactly when that text, with leading and trailing white
  space removed, is a case-insensitive match on \<open>or\<close>: the text is \<open>o\<close> or \<open>O\<close> followed by
  \<open>r\<close> or \<open>R\<close>, with nothing but white space before and after; it is \<open>xor\<close> in every other
  case. For a string value the text is the value itself; a missing, null or empty value gives
  \<open>xor\<close>.
\<close>

theorem C8_branch_type:
  assumes "js_String numstr (if truthy v then v else JStr []) = Some text"
  shows "normalizeNodeType numstr v =
           Inr (if \<exists>pre c d post.
                     text = pre @ [c, d] @ post
                     \<and> list_all is_space pre \<and> list_all is_space post
                     \<and> (c = CHR ''o'' \<or> c = CHR ''O'') \<and> (d = CHR ''r'' \<or> d = CHR ''R'')
                then ''or'' else ''xor'')
         \<and> js_String numstr (if truthy (JStr s) then JStr s else JStr []) = Some s
         \<and> normalizeNodeType numstr JUndefined = Inr ''xor''
         \<and> normalizeNodeType numstr JNull = Inr ''xor''
         \<and> normalizeNodeType numstr (JStr []) = Inr ''xor''"
proof -
  have "normalizeNodeType numstr JUndefined = Inr ''xor''"
    "normalizeNodeType numstr JNull = Inr ''xor''" "normalizeNodeType numstr (JStr []) = Inr ''xor''"
    by (simp_all add: normalizeNodeType_def normalizeNodeTypeText_def trim_def toLowerCase_def)
  with assms show ?thesis
    by (simp add: normalizeNodeType_def normalizeNodeTypeText_def or_text_iff)
qed

theorem C8_branch_type_witness:
  "js_String (\<lambda>r. ''0'') (if truthy (JStr [CHR 0xA0, CHR ''O'', CHR ''r'', CHR 0x0A])
                            then JStr [CHR 0xA0, CHR ''O'', CHR ''r'', CHR 0x0A] else JStr [])
     = Some [CHR 0xA0, CHR ''O'', CHR ''r'', CHR 0x0A]
   \<and> normalizeNodeType (\<lambda>r. ''0'') (JStr [CHR 0xA0, CHR ''O'', CHR ''r'', CHR 0x0A]) = Inr ''or''"
proof -
  let ?t = "[CHR 0xA0, CHR ''O'', CHR ''r'', CHR 0x0A]"
  have h: "js_String (\<lambda>r. ''0'') (if truthy (JStr ?t) then JStr ?t else JStr []) = Some ?t"
    by simp
  have "?t = [CHR 0xA0] @ [CHR ''O'', CHR ''r''] @ [CHR 0x0A]
      \<and> list_all is_space [CHR 0xA0] \<and> list_all is_space [CHR 0x0A]
      \<and> (CHR ''O'' = CHR ''o'' \<or> CHR ''O'' = CHR ''O'') \<and> (CHR ''r'' = CHR ''r'' \<or> CHR ''r'' = CHR ''R'')"
    by (simp add: is_space_def)
  then have ex: "\<exists>pre c d post.
      ?t = pre @ [c, d] @ post \<and> list_all is_space pre \<and> list_all is_space post
      \<and> (c = CHR ''o'' \<or> c = CHR ''O'') \<and> (d = CHR ''r'' \<or> d = CHR ''R'')"
    by blast
  from C8_branch_type [OF h] have
    "normalizeNodeType (\<lambda>r. ''0'') (JStr ?t) =
       Inr (if \<exists>pre c d post.
                 ?t = pre @ [c, d] @ post \<and> list_all is_space pre \<and> list_all is_space post
                 \<and> (c = CHR ''o'' \<or> c = CHR ''O'') \<and> (d = CHR ''r'' \<or> d = CHR ''R'')
            then ''or'' else ''xor'')"
    by (rule conjunct1)
  with ex h show ?thesis by (simp only: if_True simp_thms)
qed

text \<open>
  Claim C8 as stated fails: the string \<open>" or "\<close> is not a case-insensitive exact match on
  \<open>or\<close>, yet it normalizes to \<open>or\<close>.
\<close>

theorem C8_counterexample:
  "normalizeNodeType (\<lambda>r. ''0'') (JStr '' or '') = Inr ''or'' \<and> toLowerCase '' or '' \<noteq> ''or''"
  by code_simp

section \<open>C2: path derivation on a cycle\<close>

text \<open>
  Claim C2, as amended. \<open>walk\<close> is a total function: its termination is proved above, each
  descent adding a node of the graph to the set of ancestors. For every graph whose selections
  form a cycle A \<rightarrow> B \<rightarrow> A (A the root, \<open>e1\<close> from A to B the selection of A, \<open>e2\<close> from B to A
  the selection of B), the rebuilt active path is exactly A, \<open>e1\<close>, B, \<open>e2\<close>, A: the root is
  recorded a second time where the cycle closes. Its length is 5, which is at most
  2 \<times> the number of nodes + 1.
\<close>

theorem C2_cycle_path:
  assumes root: "nodes g = a # rest" "node_id a = A" "A \<noteq> []"
    and na: "nodeById (nodes g) A = Some na"
    and nb: "nodeById (nodes g) B = Some nb"
    and ab: "A \<noteq> B"
    and sa: "selectedEdgeIds (getActiveSelections g) na A = [JStr i1]"
    and sb: "selectedEdgeIds (getActiveSelections g) nb B = [JStr i2]"
    and e1: "edgeById (edges g) i1 = Some E1" "edge_from E1 = A" "edge_to E1 = Some B"
    and e2: "edgeById (edges g) i2 = Some E2" "edge_from E2 = B" "edge_to E2 = Some A"
  shows "activePath (ui (rebuildActivePathFromSelections g)) = [A, i1, B, i2, A]
         \<and> length (activePath (ui (rebuildActivePathFromSelections g))) \<le> 2 * length (nodes g) + 1"
proof -
  let ?ns = "nodes g" and ?es = "edges g" and ?sel = "getActiveSelections g"
  have hA: "has_node ?ns A" and hB: "has_node ?ns B"
    using na nb by (simp_all add: nodeById_has_node)
  have f1: "followed ?ns ?es A (JStr i1) = Some (E1, B)"
    using e1 hB by (simp add: followed_def)
  have f2: "followed ?ns ?es B (JStr i2) = Some (E2, A)"
    using e2 hA by (simp add: followed_def)
  have i1: "edge_id E1 = i1" and i2: "edge_id E2 = i2"
    using e1(1) e2(1) by (simp_all add: edgeById_id)
  have w3: "walk ?ns ?es ?sel A [B, A] = [A]"
    using na by (simp add: walk.simps)
  have w2: "walk ?ns ?es ?sel B [A] = [B, i2, A]"
    using nb ab sb f2 w3 i2 by (simp add: walk.simps)
  have w1: "walk ?ns ?es ?sel A [] = [A, i1, B, i2, A]"
    using na sa f1 w2 i1 by (simp add: walk.simps)
  have p: "activePath (ui (rebuildActivePathFromSelections g)) = [A, i1, B, i2, A]"
    using root w1 by (simp add: rebuildActivePathFromSelections_def Let_def)
  have "A \<in> set (map node_id ?ns)" "B \<in> set (map node_id ?ns)"
    using hA hB by (simp_all add: has_node_def)
  then have "card {A, B} \<le> card (set (map node_id ?ns))"
    by (intro card_mono) auto
  then have "2 \<le> length (map node_id ?ns)"
    using ab card_length [of "map node_id ?ns"] by simp
  then show ?thesis using p by simp
qed

theorem C2_cycle_path_witness:
  "activePath (ui (rebuildActivePathFromSelections cycle_AB)) = [''A'', ''e1'', ''B'', ''e2'', ''A'']
   \<and> length (activePath (ui (rebuildActivePathFromSelections cycle_AB))) \<le> 2 * length (nodes cycle_AB) + 1"
  by (rule C2_cycle_path [where a = "mk_node ''A'' ''xor'' []" and rest = "[mk_node ''B'' ''xor'' []]"
        and na = "mk_node ''A'' ''xor'' []" and nb = "mk_node ''B'' ''xor'' []"
        and ?E1.0 = "mk_edge ''e1'' ''A'' (Some ''B'') ''b1''"
        and ?E2.0 = "mk_edge ''e2'' ''B'' (Some ''A'') ''b2''"])
     (simp_all add: cycle_AB_def mk_graph_def mk_node_def mk_edge_def nodeById_def edgeById_def
        selectedEdgeIds_def getActiveSelections_def selectionAt_def obj_get_array_def)


text \<open>
  Claim C2 as stated fails on the graph with just the two nodes of the cycle: the path has
  5 entries and 2 \<times> the number of nodes is 4.
\<close>

theorem C2_counterexample:
  "activePath (ui (rebuildActivePathFromSelections cycle_AB)) = [''A'', ''e1'', ''B'', ''e2'', ''A'']
   \<and> \<not> length (activePath (ui (rebuildActivePathFromSelections cycle_AB)))
         \<le> 2 * length (nodes cycle_AB)"
  by code_simp

section \<open>C6: the XOR cap\<close>

text \<open>
  The cap on one entry of the selections: it holds of an XOR node whose id is carried by no
  node of another type.
\<close>

lemma xor_cap_same_id:
  assumes enf: "enforceGraphConsistency g = Inr g'"
    and N: "N \<in> set (nodes g')" "node_type N = ''xor''"
    and same: "\<forall>M \<in> set (nodes g'). node_id M = node_id N \<longrightarrow> node_type M = ''xor''"
    and get: "obj_get_array (activeSelections (ui g')) (node_id N) = Some xs"
  shows "length xs \<le> 1"
proof -
  from enf obtain src where
    g': "g' = rebuildActivePathFromSelections
            ((enforceStructure g)\<lparr>ui := (ui (enforceStructure g))\<lparr>activeSelections :=
               normalizeSelections (nodes (enforceStructure g)) (edges (enforceStructure g)) src\<rparr>\<rparr>)"
    by (rule enforce_InrE)
  let ?ns = "nodes (enforceStructure g)" and ?es = "edges (enforceStructure g)"
  let ?N1 = "normalizeSelections ?ns ?es src"
  have ns: "nodes g' = ?ns" by (simp add: g' rebuild_frame)
  from rebuild_selections [of "(enforceStructure g)\<lparr>ui := (ui (enforceStructure g))\<lparr>activeSelections := ?N1\<rparr>\<rparr>"]
  consider "activeSelections (ui g') = empty_object"
    | path where "activeSelections (ui g') = pruneSelections ?ns ?es path ?N1"
    unfolding g' by (auto simp add: getActiveSelections_def)
  then show ?thesis
  proof cases
    case 1
    with get show ?thesis by (simp add: get_empty)
  next
    case 2
    with get prune_get_SomeD obtain ys where
      ys: "(node_id N, JArr ys) \<in> set (obj_entries ?N1)"
      and xs: "xs = map JStr (push_unique (activeEdgeIds ?ns ?es path) [] ys)"
      by metis
    from ys have "(node_id N, JArr ys) \<in> set (own ?N1)"
      by (simp add: plain_entries [OF plain_normalize])
    then obtain nd u where nd: "nd \<in> set ?ns"
      and u: "normalizedEntry ?ns ?es src nd = Some (node_id N, u)" and ysu: "ys = map JStr u"
      using own_fold_mem [of "node_id N" "JArr ys" "normalizedEntry ?ns ?es src" ?ns empty_object]
      by (auto simp add: normalizeSelections_def empty_object_def)
    from u have idnd: "node_id nd = node_id N" and uu: "u = uniqueSelection ?ns ?es src nd"
      by (simp_all add: normalizedEntry_Some)
    with same nd ns have "node_type nd = ''xor''" by simp
    then have "length u \<le> 1"
      unfolding uu by (rule uniqueSelection_xor)
    moreover have "length xs \<le> length ys"
      using push_unique_length [of _ "[]" ys] by (simp add: xs)
    ultimately show ?thesis by (simp add: ysu)
  qed
qed

text \<open>
  Claim C6. In a graph of the program every node has an id of its own: \<open>normalizeGraph\<close> draws
  a new id for a node whose id is taken (lemma \<open>normalizeGraph_distinct_ids\<close>), and a new node
  gets a fresh one. After every pass of
  \<open>enforceGraphConsistency\<close> that returns on such a graph, for every node N of type XOR, the
  entry \<open>ui.activeSelections[N.id]\<close>, if present, contains at most one edge id.
\<close>

theorem C6_xor_cap:
  assumes enf: "enforceGraphConsistency g = Inr g'"
    and ids: "distinct (map node_id (nodes g))"
    and N: "N \<in> set (nodes g')" "node_type N = ''xor''"
    and get: "obj_get_array (activeSelections (ui g')) (node_id N) = Some xs"
  shows "length xs \<le> 1"
proof -
  have "map node_id (nodes g') = map node_id (nodes g)"
    unfolding enforce_InrD(2) [OF enf] by (simp add: enforceNode_frame comp_def)
  with ids have "distinct (map node_id (nodes g'))" by simp
  then have inj: "inj_on node_id (set (nodes g'))" by (simp add: distinct_map)
  have same: "\<forall>M \<in> set (nodes g'). node_id M = node_id N \<longrightarrow> node_type M = ''xor''"
  proof (intro ballI impI)
    fix M assume "M \<in> set (nodes g')" "node_id M = node_id N"
    with inj N(1) have "M = N" by (auto dest: inj_onD)
    with N(2) show "node_type M = ''xor''" by simp
  qed
  from enf N same get show ?thesis by (rule xor_cap_same_id)
qed

theorem C6_xor_cap_witness:
  "selectionAt (activeSelections (ui both_selected)) ''S'' = [JStr ''e1'', JStr ''e2'']
   \<and> obj_get_array (activeSelections (ui (projr (enforceGraphConsistency both_selected)))) ''S''
       = Some [JStr ''e1'']
   \<and> length [JStr ''e1''] \<le> (1::nat)"
proof -
  let ?g' = "projr (enforceGraphConsistency both_selected)"
  let ?N = "\<lparr>node_id = ''S'', node_x = 220, node_y = 120, node_text = ''Start'',
      node_type = ''xor'', node_color = None,
      node_buttons = [\<lparr>button_id = ''b1'', button_text = ''Choice'', button_to = Some ''A''\<rparr>,
                      \<lparr>button_id = ''b2'', button_text = ''Choice'', button_to = Some ''B''\<rparr>]\<rparr>"
  have "\<not> isl (enforceGraphConsistency both_selected)" by code_simp
  then have h: "enforceGraphConsistency both_selected = Inr ?g'"
    by (rule Inr_projr)
  have ids: "distinct (map node_id (nodes both_selected))" by code_simp
  have n: "?N \<in> set (nodes ?g')" by code_simp
  have t: "node_type ?N = ''xor''" by simp
  have get: "obj_get_array (activeSelections (ui ?g')) (node_id ?N) = Some [JStr ''e1'']"
    by code_simp
  have prior: "selectionAt (activeSelections (ui both_selected)) ''S'' = [JStr ''e1'', JStr ''e2'']"
    by code_simp
  from C6_xor_cap [OF h ids n t get] get prior show ?thesis by simp
qed

section \<open>C5: the button mirror\<close>

text \<open>
  Claim C5, as amended. Take a graph in which no node has two buttons of the same id, and a
  pass of \<open>enforceGraphConsistency\<close> that returns a graph in which any two edges leaving the
  same node under the same \<open>buttonId\<close> have the same target. Then for every node N and every
  edge E with \<open>E.from = N.id\<close>, \<open>N.buttons\<close> contains exactly one button B with
  \<open>B.id = E.buttonId\<close>, and \<open>B.to = E.to\<close>; and every button of N has the \<open>buttonId\<close> of some
  surviving outgoing edge of N.
\<close>

theorem C5_button_mirror:
  assumes enf: "enforceGraphConsistency g = Inr g'"
    and H1: "\<forall>M \<in> set (nodes g). distinct (map button_id (node_buttons M))"
    and H2: "\<forall>E \<in> set (edges g'). \<forall>E' \<in> set (edges g').
               edge_from E = edge_from E' \<and> edge_buttonId E = edge_buttonId E' \<longrightarrow> edge_to E = edge_to E'"
    and N: "N \<in> set (nodes g')"
  shows "(\<forall>E \<in> set (edges g'). edge_from E = node_id N \<longrightarrow>
            (\<exists>B. filter (\<lambda>B. button_id B = edge_buttonId E) (node_buttons N) = [B]
                 \<and> button_to B = edge_to E))
         \<and> (\<forall>B \<in> set (node_buttons N).
              \<exists>E \<in> set (edges g'). edge_from E = node_id N \<and> edge_buttonId E = button_id B)"
proof -
  let ?es = "edges g'"
  have es: "?es = List.map_filter (sanitizeEdge (nodes g)) (edges g)"
    by (rule enforce_InrD(1) [OF enf])
  from N enforce_InrD(2) [OF enf] obtain nd where nd: "nd \<in> set (nodes g)" and Nnd: "N = enforceNode ?es nd"
    by auto
  have idN: "node_id N = node_id nd" by (simp add: Nnd enforceNode_frame)
  let ?out = "outgoingByNode ?es (node_id nd)"
  have dist: "distinct (map button_id (node_buttons N))"
    unfolding Nnd using H1 nd by (intro enforced_buttons_distinct) simp
  have part1: "\<exists>B. filter (\<lambda>B. button_id B = edge_buttonId E) (node_buttons N) = [B] \<and> button_to B = edge_to E"
    if E: "E \<in> set ?es" "edge_from E = node_id N" for E
  proof -
    from E have Eo: "E \<in> set ?out" by (simp add: outgoingByNode_def idN)
    from enforced_button_for_edge [OF Eo] obtain B e where
      B: "B \<in> set (node_buttons N)" "button_id B = edge_buttonId E"
      and e: "e \<in> set ?out" "edge_buttonId e = edge_buttonId E"
      and to: "button_to B = (case edge_to e of Some t \<Rightarrow> if t \<noteq> [] then Some t else None | None \<Rightarrow> None)"
      unfolding Nnd by blast
    from e(1) have ees: "e \<in> set ?es" and ef: "edge_from e = node_id nd"
      by (simp_all add: outgoingByNode_def)
    from ees have "button_to B = edge_to e"
      unfolding to es by (rule sanitized_target)
    moreover from H2 ees E e(2) ef idN have "edge_to e = edge_to E" by metis
    moreover from distinct_filter_single [OF dist B(1)]
    have "filter (\<lambda>y. button_id y = edge_buttonId E) (node_buttons N) = [B]"
      by (simp add: B(2))
    ultimately show ?thesis by auto
  qed
  have part2: "\<exists>E \<in> set ?es. edge_from E = node_id N \<and> edge_buttonId E = button_id B"
    if "B \<in> set (node_buttons N)" for B
    using enforced_button_backed [of B ?es nd] that
    by (auto simp add: Nnd [symmetric] outgoingByNode_def idN)
  from part1 part2 show ?thesis by blast
qed


theorem C5_button_mirror_witness:
  "\<exists>B. filter (\<lambda>B. button_id B = ''b1'')
          (node_buttons (hd (nodes (projr (enforceGraphConsistency scenario_A))))) = [B]
       \<and> button_to B = Some ''A''"
proof -
  let ?g' = "projr (enforceGraphConsistency scenario_A)"
  have h: "enforceGraphConsistency scenario_A = Inr ?g'"
    by (rule Inr_projr [OF scenario_A_enforced])
  have H1: "\<forall>M \<in> set (nodes scenario_A). distinct (map button_id (node_buttons M))"
    by code_simp
  have H2: "\<forall>E \<in> set (edges ?g'). \<forall>E' \<in> set (edges ?g').
      edge_from E = edge_from E' \<and> edge_buttonId E = edge_buttonId E' \<longrightarrow> edge_to E = edge_to E'"
    by code_simp
  have n: "hd (nodes ?g') \<in> set (nodes ?g')" by code_simp
  have e: "mk_edge ''e1'' ''S'' (Some ''A'') ''b1'' \<in> set (edges ?g')" by code_simp
  have f: "edge_from (mk_edge ''e1'' ''S'' (Some ''A'') ''b1'') = node_id (hd (nodes ?g'))"
    by code_simp
  from C5_button_mirror [OF h H1 H2 n] e f
  have "\<exists>B. filter (\<lambda>B. button_id B = edge_buttonId (mk_edge ''e1'' ''S'' (Some ''A'') ''b1''))
          (node_buttons (hd (nodes ?g'))) = [B]
       \<and> button_to B = edge_to (mk_edge ''e1'' ''S'' (Some ''A'') ''b1'')"
    by blast
  then show ?thesis by (simp add: mk_edge_def)
qed

text \<open>
  Claim C5 as stated fails when two edges of a node share a \<open>buttonId\<close>: the one button of that
  id mirrors the later edge. Here \<open>e1\<close> leads from \<open>a\<close> to \<open>b\<close> under the button id \<open>b1\<close>, and
  after the pass no button of \<open>a\<close> has the id \<open>b1\<close> and the target \<open>b\<close>.
\<close>

theorem C5_counterexample:
  "mk_edge ''e1'' ''a'' (Some ''b'') ''b1'' \<in> set (edges (projr (enforceGraphConsistency shared_button)))
   \<and> node_id (hd (nodes (projr (enforceGraphConsistency shared_button)))) = ''a''
   \<and> filter (\<lambda>B. button_id B = ''b1'' \<and> button_to B = Some ''b'')
        (node_buttons (hd (nodes (projr (enforceGraphConsistency shared_button))))) = []"
  by code_simp

section \<open>C4: rejected and accepted toggles\<close>

lemma nodeById_find:
  assumes "distinct (map node_id ns)" and "find (\<lambda>n. node_id n = k) ns = Some nd"
  shows "nodeById ns k = Some nd"
proof -
  from assms(2) have "nd \<in> set ns" "node_id nd = k"
    by (auto simp add: find_Some_iff)
  then have "(k, nd) \<in> set (rev (map (\<lambda>n. (node_id n, n)) ns))" by auto
  moreover from assms(1) have "distinct (map fst (rev (map (\<lambda>n. (node_id n, n)) ns)))"
    by (simp add: rev_map [symmetric] comp_def)
  ultimately show ?thesis
    unfolding nodeById_def by (rule map_of_is_SomeI [rotated])
qed

lemma toggle_selected:
  assumes "snd (toggleSelection s ty k i)"
  shows "\<exists>xs. fst (toggleSelection s ty k i) = obj_set_array s k xs \<and> i \<in> set xs
           \<and> (ty \<noteq> ''or'' \<longrightarrow> xs = [i])"
  using assms by (auto simp add: toggleSelection_def Let_def split: if_splits)

lemma xor_text_not_or: "normalizeNodeTypeText ''xor'' \<noteq> ''or''"
  by code_simp

lemma reported_selected_kept:
  assumes nid: "distinct (map node_id (nodes g))" and eid: "distinct (map edge_id (edges g))"
    and D: "\<forall>e' \<in> set (edges g). \<not> has_node (nodes g) (edge_id e')"
    and P: "\<not> has_node (nodes g) proto_key"
    and fe: "findEdge g i = Some e" and et: "edge_to e = Some t" and ht: "has_node (nodes g) t"
    and fn: "findNode g (edge_from e) = Some src"
    and flag: "snd (toggleSelection (getActiveSelections g) (normalizeNodeTypeText (node_type src))
                      (node_id src) (edge_id e))"
    and g': "g' = rebuildActivePathFromSelections
                    (g\<lparr>ui := (ui g)\<lparr>activeSelections :=
                       fst (toggleSelection (getActiveSelections g)
                              (normalizeNodeTypeText (node_type src)) (node_id src) (edge_id e))\<rparr>\<rparr>)"
    and on: "node_id src \<in> set (activePath (ui g'))"
  shows "JStr (edge_id e) \<in> set (selectionAt (activeSelections (ui g')) (node_id src))"
proof -
  let ?ns = "nodes g" and ?es = "edges g" and ?k = "node_id src"
  let ?ty = "normalizeNodeTypeText (node_type src)"
  let ?sel' = "fst (toggleSelection (getActiveSelections g) ?ty ?k (edge_id e))"
  let ?h = "g\<lparr>ui := (ui g)\<lparr>activeSelections := ?sel'\<rparr>\<rparr>"
  let ?r = "node_id (hd ?ns)"
  let ?path = "walk ?ns ?es ?sel' ?r []"
  from fn have k: "?k = edge_from e" and sns: "src \<in> set ?ns"
    by (auto simp add: findNode_def find_Some_iff)
  have nd: "nodeById ?ns ?k = Some src"
    using nid fn unfolding findNode_def k by (rule nodeById_find)
  then have hk: "has_node ?ns ?k" by (rule nodeById_has_node)
  from fe have ees: "e \<in> set ?es"
    by (auto simp add: findEdge_def find_Some_iff)
  have eb: "edgeById ?es (edge_id e) = Some e"
  proof -
    from fe have "edge_id e = i" by (auto simp add: findEdge_def find_Some_iff)
    with edgeById_find [OF eid fe [unfolded findEdge_def]] show ?thesis by simp
  qed
  have root: "nodes ?h \<noteq> []" "node_id (hd (nodes ?h)) \<noteq> []"
  proof -
    have "\<not> (nodes ?h = [] \<or> node_id (hd (nodes ?h)) = [])"
    proof
      assume "nodes ?h = [] \<or> node_id (hd (nodes ?h)) = []"
      from rebuild_simps(1) [OF this] on show False by (simp add: g')
    qed
    then show "nodes ?h \<noteq> []" "node_id (hd (nodes ?h)) \<noteq> []" by simp_all
  qed
  have p: "activePath (ui g') = ?path"
    and s: "activeSelections (ui g') = pruneSelections ?ns ?es ?path ?sel'"
    unfolding g' rebuild_simps(2) [OF root] by (simp_all add: getActiveSelections_def)
  from on have on': "?k \<in> set ?path" by (simp add: p)
  from toggle_selected [OF flag] obtain xs where
    sel': "?sel' = obj_set_array (getActiveSelections g) ?k xs" and ixs: "edge_id e \<in> set xs"
    and xor: "?ty \<noteq> ''or'' \<longrightarrow> xs = [edge_id e]"
    by blast
  have at: "selectionAt ?sel' ?k = map JStr xs"
    unfolding sel' by (simp add: selectionAt_set)
  have "JStr (edge_id e) \<in> set (selectedEdgeIds ?sel' src ?k)"
  proof (cases "?ty = ''or''")
    case True
    with xor_text_not_or have "node_type src \<noteq> ''xor''" by auto
    with ixs show ?thesis unfolding selectedEdgeIds_def at Let_def by simp
  next
    case False
    with xor have "xs = [edge_id e]" by simp
    then show ?thesis unfolding selectedEdgeIds_def at Let_def by simp
  qed
  moreover have "followed ?ns ?es ?k (JStr (edge_id e)) = Some (e, t)"
    by (simp add: followed_def eb et k ht)
  ultimately have mem: "(e, t) \<in> set (followedAt ?ns ?es ?sel' ?k src)"
    unfolding followedAt_def map_filter_mem by blast
  have "?k \<notin> set []" by simp
  from walk_expanded [OF D on' this nd mem] have "edge_id e \<in> set ?path" .
  moreover from D ees have "\<not> has_node ?ns (edge_id e)" by blast
  moreover from ees have "has_edge ?es (edge_id e)" by (auto simp add: has_edge_def)
  ultimately have act: "activeEdgeIds ?ns ?es ?path (edge_id e)"
    by (simp add: activeEdgeIds_def)
  have "selectionAt (activeSelections (ui g')) ?k
      = map JStr (push_unique (activeEdgeIds ?ns ?es ?path) [] (map JStr xs))"
    unfolding s prune_selectionAt [OF P on' hk] at ..
  moreover from ixs act have "edge_id e \<in> set (push_unique (activeEdgeIds ?ns ?es ?path) [] (map JStr xs))"
    unfolding push_unique_set by auto
  ultimately show ?thesis by simp
qed

lemma off_path_unselected:
  assumes "k \<notin> set (activePath (ui (rebuildActivePathFromSelections g)))"
  shows "selectionAt (activeSelections (ui (rebuildActivePathFromSelections g))) k = []"
proof (cases "nodes g = [] \<or> node_id (hd (nodes g)) = []")
  case True
  from rebuild_simps(1) [OF this] show ?thesis by (simp add: selectionAt_empty)
next
  case False
  then have r: "nodes g \<noteq> []" "node_id (hd (nodes g)) \<noteq> []" by simp_all
  let ?path = "walk (nodes g) (edges g) (getActiveSelections g) (node_id (hd (nodes g))) []"
  from assms have "\<not> activeNodeIds (nodes g) ?path k"
    unfolding rebuild_simps(2) [OF r] by (simp add: activeNodeIds_def)
  from prune_selectionAt_inactive [OF this] show ?thesis
    unfolding rebuild_simps(2) [OF r] by simp
qed

text \<open>
  Claim C4, as amended. For every editor state and edge id: if no graph is loaded, or the id
  names no edge, or the named edge is dangling (its \<open>to\<close> is null or blank), or its source node
  does not exist, \<open>applyTypedEdgeSelection\<close> returns null and the state, with its graph, is
  unchanged. Otherwise it returns a result reporting the edge, the normalized branch type of
  its source node, and whether the toggle selected the edge (true) or deselected it (false):
  for an OR source, whether the edge was not among the node's selected edges; for an XOR
  source, whether the edge was not the node's sole selection. Nodes and edges are unchanged.
  An edge that is in the selection of its source node after the call is reported true. In a
  graph with unique node ids and unique edge ids, no edge carrying the id of a node and no
  node named \<open>__proto__\<close>, an edge with a resolving target that is reported true is in the
  selection of its source node after the call when that node lies on the rebuilt active path.
  When the source node does not lie on the rebuilt active path, it has no selection after the
  call, whatever the result reports.
\<close>

theorem C4_toggle_rejection:
  "(currentGraph st = None \<longrightarrow> applyTypedEdgeSelection st k = (None, st))
   \<and> (\<forall>g. currentGraph st = Some g \<longrightarrow>
        (findEdge g k = None \<longrightarrow> applyTypedEdgeSelection st k = (None, st))
        \<and> (\<forall>e. findEdge g k = Some e \<longrightarrow>
              (\<not> edgeHasTarget e \<or> findNode g (edge_from e) = None \<longrightarrow>
                 applyTypedEdgeSelection st k = (None, st))
              \<and> (\<forall>src. edgeHasTarget e \<and> findNode g (edge_from e) = Some src \<longrightarrow>
                    (\<exists>r st' g'. applyTypedEdgeSelection st k = (Some r, st')
                       \<and> currentGraph st' = Some g'
                       \<and> nodes g' = nodes g \<and> edges g' = edges g
                       \<and> result_edge r = e
                       \<and> result_sourceNodeType r = normalizeNodeTypeText (node_type src)
                       \<and> (result_edgeIsSelected r \<longleftrightarrow>
                            (if normalizeNodeTypeText (node_type src) = ''or''
                             then edge_id e \<notin> set (push_unique (\<lambda>k. k \<noteq> []) []
                                                    (selectionAt (activeSelections (ui g)) (node_id src)))
                             else push_unique (\<lambda>k. k \<noteq> []) []
                                    (selectionAt (activeSelections (ui g)) (node_id src)) \<noteq> [edge_id e]))
                       \<and> (JStr (edge_id e) \<in> set (selectionAt (activeSelections (ui g')) (node_id src))
                            \<longrightarrow> result_edgeIsSelected r)
                       \<and> (distinct (map node_id (nodes g)) \<and> distinct (map edge_id (edges g))
                            \<and> (\<forall>e' \<in> set (edges g). \<not> has_node (nodes g) (edge_id e'))
                            \<and> \<not> has_node (nodes g) proto_key
                            \<and> (\<exists>t. edge_to e = Some t \<and> has_node (nodes g) t)
                            \<and> node_id src \<in> set (activePath (ui g'))
                            \<and> result_edgeIsSelected r
                            \<longrightarrow> JStr (edge_id e)
                                  \<in> set (selectionAt (activeSelections (ui g')) (node_id src)))
                       \<and> (node_id src \<notin> set (activePath (ui g'))
                            \<longrightarrow> selectionAt (activeSelections (ui g')) (node_id src) = [])))))"
proof (intro conjI impI allI)
  assume "currentGraph st = None"
  then show "applyTypedEdgeSelection st k = (None, st)"
    by (simp add: applyTypedEdgeSelection_def)
next
  fix g assume "currentGraph st = Some g" "findEdge g k = None"
  then show "applyTypedEdgeSelection st k = (None, st)"
    by (simp add: applyTypedEdgeSelection_def)
next
  fix g e assume "currentGraph st = Some g" "findEdge g k = Some e"
    "\<not> edgeHasTarget e \<or> findNode g (edge_from e) = None"
  then show "applyTypedEdgeSelection st k = (None, st)"
    by (auto simp add: applyTypedEdgeSelection_def)
next
  fix g e src
  assume g: "currentGraph st = Some g" and e: "findEdge g k = Some e"
    and ts: "edgeHasTarget e \<and> findNode g (edge_from e) = Some src"
  let ?ty = "normalizeNodeTypeText (node_type src)"
  let ?tog = "toggleSelection (getActiveSelections g) ?ty (node_id src) (edge_id e)"
  from ts have fn: "findNode g (edge_from e) = Some src" by simp
  from apply_accepts [OF g e] ts obtain r st' g' where
    a: "applyTypedEdgeSelection st k = (Some r, st')" "currentGraph st' = Some g'"
    and g': "g' = rebuildActivePathFromSelections (g\<lparr>ui := (ui g)\<lparr>activeSelections := fst ?tog\<rparr>\<rparr>)"
    and r: "result_edge r = e" "result_sourceNodeType r = ?ty" "result_edgeIsSelected r = snd ?tog"
    by blast
  have frame: "nodes g' = nodes g" "edges g' = edges g"
    by (simp_all add: g' rebuild_frame)
  have dec: "result_edgeIsSelected r \<longleftrightarrow>
      (if ?ty = ''or''
       then edge_id e \<notin> set (push_unique (\<lambda>k. k \<noteq> []) [] (selectionAt (activeSelections (ui g)) (node_id src)))
       else push_unique (\<lambda>k. k \<noteq> []) [] (selectionAt (activeSelections (ui g)) (node_id src)) \<noteq> [edge_id e])"
    by (simp add: r(3) toggle_decision getActiveSelections_def Let_def)
  have kept: "result_edgeIsSelected r"
    if sel: "JStr (edge_id e) \<in> set (selectionAt (activeSelections (ui g')) (node_id src))"
  proof (rule ccontr)
    assume "\<not> result_edgeIsSelected r"
    then have tog: "?tog = (fst ?tog, False)" by (simp add: r(3) prod_eq_iff)
    from rebuilt_selection_subset [OF sel [unfolded g']] obtain ys where
      "map_of (own (fst ?tog)) (node_id src) = Some (JArr ys)" "JStr (edge_id e) \<in> set ys"
      by auto
    with toggle_deselect_own [OF tog] show False by blast
  qed
  have selected: "JStr (edge_id e) \<in> set (selectionAt (activeSelections (ui g')) (node_id src))"
    if wf: "distinct (map node_id (nodes g)) \<and> distinct (map edge_id (edges g))
        \<and> (\<forall>e' \<in> set (edges g). \<not> has_node (nodes g) (edge_id e'))
        \<and> \<not> has_node (nodes g) proto_key
        \<and> (\<exists>t. edge_to e = Some t \<and> has_node (nodes g) t)
        \<and> node_id src \<in> set (activePath (ui g'))
        \<and> result_edgeIsSelected r"
  proof -
    from wf obtain t where t: "edge_to e = Some t" "has_node (nodes g) t" by blast
    from wf have flag: "snd ?tog" by (simp add: r(3))
    from wf have nid: "distinct (map node_id (nodes g))" and eid: "distinct (map edge_id (edges g))"
      and D: "\<forall>e' \<in> set (edges g). \<not> has_node (nodes g) (edge_id e')"
      and P: "\<not> has_node (nodes g) proto_key"
      and on: "node_id src \<in> set (activePath (ui g'))"
      by simp_all
    show ?thesis
      by (rule reported_selected_kept [OF nid eid D P e t fn flag g' on])
  qed
  have off: "selectionAt (activeSelections (ui g')) (node_id src) = []"
    if "node_id src \<notin> set (activePath (ui g'))"
    using that unfolding g' by (rule off_path_unselected)
  show "\<exists>r st' g'. applyTypedEdgeSelection st k = (Some r, st')
      \<and> currentGraph st' = Some g' \<and> nodes g' = nodes g \<and> edges g' = edges g
      \<and> result_edge r = e \<and> result_sourceNodeType r = ?ty
      \<and> (result_edgeIsSelected r \<longleftrightarrow>
            (if ?ty = ''or''
             then edge_id e \<notin> set (push_unique (\<lambda>k. k \<noteq> []) [] (selectionAt (activeSelections (ui g)) (node_id src)))
             else push_unique (\<lambda>k. k \<noteq> []) [] (selectionAt (activeSelections (ui g)) (node_id src)) \<noteq> [edge_id e]))
      \<and> (JStr (edge_id e) \<in> set (selectionAt (activeSelections (ui g')) (node_id src))
            \<longrightarrow> result_edgeIsSelected r)
      \<and> (distinct (map node_id (nodes g)) \<and> distinct (map edge_id (edges g))
            \<and> (\<forall>e' \<in> set (edges g). \<not> has_node (nodes g) (edge_id e'))
            \<and> \<not> has_node (nodes g) proto_key
            \<and> (\<exists>t. edge_to e = Some t \<and> has_node (nodes g) t)
            \<and> node_id src \<in> set (activePath (ui g'))
            \<and> result_edgeIsSelected r
            \<longrightarrow> JStr (edge_id e) \<in> set (selectionAt (activeSelections (ui g')) (node_id src)))
      \<and> (node_id src \<notin> set (activePath (ui g'))
            \<longrightarrow> selectionAt (activeSelections (ui g')) (node_id src) = [])"
    using a frame r(1,2) dec kept selected off by blast
qed

theorem C4_toggle_rejection_witness:
  "applyTypedEdgeSelection (editor_state scenario_A) ''nope'' = (None, editor_state scenario_A)
   \<and> (\<exists>r st' g'. applyTypedEdgeSelection (editor_state scenario_A) ''e2'' = (Some r, st')
         \<and> currentGraph st' = Some g'
         \<and> result_edge r = mk_edge ''e2'' ''S'' (Some ''B'') ''b2''
         \<and> result_sourceNodeType r = ''xor'' \<and> result_edgeIsSelected r
         \<and> activePath (ui g') = [''S'', ''e2'', ''B'']
         \<and> JStr ''e2'' \<in> set (selectionAt (activeSelections (ui g')) ''S''))
   \<and> (\<exists>r st' g'. applyTypedEdgeSelection (editor_state off_path) ''e'' = (Some r, st')
         \<and> currentGraph st' = Some g'
         \<and> activePath (ui g') = [''r'']
         \<and> selectionAt (activeSelections (ui g')) ''a'' = [])"
proof -
  let ?st = "editor_state scenario_A"
  let ?e = "mk_edge ''e2'' ''S'' (Some ''B'') ''b2''"
  let ?S = "mk_node ''S'' ''xor'' []"
  have g: "currentGraph ?st = Some scenario_A" by (simp add: editor_state_def)
  have n: "findEdge scenario_A ''nope'' = None" by code_simp
  have e: "findEdge scenario_A ''e2'' = Some ?e" by code_simp
  have t: "edgeHasTarget ?e \<and> findNode scenario_A (edge_from ?e) = Some ?S" by code_simp
  have ty: "normalizeNodeTypeText (node_type ?S) = ''xor''" by code_simp
  have d: "push_unique (\<lambda>k. k \<noteq> []) [] (selectionAt (activeSelections (ui scenario_A)) (node_id ?S))
      \<noteq> [edge_id ?e]"
    by code_simp
  have wf: "distinct (map node_id (nodes scenario_A)) \<and> distinct (map edge_id (edges scenario_A))
      \<and> (\<forall>e' \<in> set (edges scenario_A). \<not> has_node (nodes scenario_A) (edge_id e'))
      \<and> \<not> has_node (nodes scenario_A) proto_key
      \<and> (\<exists>t. edge_to ?e = Some t \<and> has_node (nodes scenario_A) t)"
  proof -
    have "distinct (map node_id (nodes scenario_A)) \<and> distinct (map edge_id (edges scenario_A))
      \<and> (\<forall>e' \<in> set (edges scenario_A). \<not> has_node (nodes scenario_A) (edge_id e'))
      \<and> \<not> has_node (nodes scenario_A) proto_key"
      by code_simp
    moreover have "edge_to ?e = Some ''B'' \<and> has_node (nodes scenario_A) ''B''"
      by code_simp
    ultimately show ?thesis by blast
  qed
  have ids: "node_id ?S = ''S''" "edge_id ?e = ''e2''" by (simp_all add: mk_node_def mk_edge_def)
  have p: "activePath (ui (the (currentGraph (snd (applyTypedEdgeSelection ?st ''e2'')))))
      = [''S'', ''e2'', ''B'']"
    by code_simp
  from C4_toggle_rejection [of ?st "''nope''"] g n
  have 1: "applyTypedEdgeSelection ?st ''nope'' = (None, ?st)" by blast
  from C4_toggle_rejection [of ?st "''e2''"] g e t
  obtain r st' g' where a: "applyTypedEdgeSelection ?st ''e2'' = (Some r, st')"
    "currentGraph st' = Some g'"
    "result_edge r = ?e" "result_sourceNodeType r = normalizeNodeTypeText (node_type ?S)"
    and dec: "result_edgeIsSelected r \<longleftrightarrow>
       (if normalizeNodeTypeText (node_type ?S) = ''or''
        then edge_id ?e \<notin> set (push_unique (\<lambda>k. k \<noteq> []) []
               (selectionAt (activeSelections (ui scenario_A)) (node_id ?S)))
        else push_unique (\<lambda>k. k \<noteq> []) []
               (selectionAt (activeSelections (ui scenario_A)) (node_id ?S)) \<noteq> [edge_id ?e])"
    and sel: "distinct (map node_id (nodes scenario_A)) \<and> distinct (map edge_id (edges scenario_A))
        \<and> (\<forall>e' \<in> set (edges scenario_A). \<not> has_node (nodes scenario_A) (edge_id e'))
        \<and> \<not> has_node (nodes scenario_A) proto_key
        \<and> (\<exists>t. edge_to ?e = Some t \<and> has_node (nodes scenario_A) t)
        \<and> node_id ?S \<in> set (activePath (ui g'))
        \<and> result_edgeIsSelected r
        \<longrightarrow> JStr (edge_id ?e) \<in> set (selectionAt (activeSelections (ui g')) (node_id ?S))"
    by blast
  from dec ty d have flag: "result_edgeIsSelected r" by simp
  from p a(1,2) have path: "activePath (ui g') = [''S'', ''e2'', ''B'']" by simp
  with sel wf flag have "JStr ''e2'' \<in> set (selectionAt (activeSelections (ui g')) ''S'')"
    by (simp add: ids)
  with a ty flag path have 2: "\<exists>r st' g'. applyTypedEdgeSelection ?st ''e2'' = (Some r, st')
         \<and> currentGraph st' = Some g' \<and> result_edge r = ?e
         \<and> result_sourceNodeType r = ''xor'' \<and> result_edgeIsSelected r
         \<and> activePath (ui g') = [''S'', ''e2'', ''B'']
         \<and> JStr ''e2'' \<in> set (selectionAt (activeSelections (ui g')) ''S'')"
    by auto
  let ?so = "editor_state off_path"
  let ?eo = "mk_edge ''e'' ''a'' (Some ''r'') ''b1''"
  let ?a = "mk_node ''a'' ''xor'' [\<lparr>button_id = ''b1'', button_text = ''Choice'', button_to = Some ''r''\<rparr>]"
  have go: "currentGraph ?so = Some off_path" by (simp add: editor_state_def)
  have eo: "findEdge off_path ''e'' = Some ?eo" by code_simp
  have to: "edgeHasTarget ?eo \<and> findNode off_path (edge_from ?eo) = Some ?a" by code_simp
  have po: "activePath (ui (the (currentGraph (snd (applyTypedEdgeSelection ?so ''e''))))) = [''r'']"
    by code_simp
  from C4_toggle_rejection [of ?so "''e''"] go eo to
  obtain ro so' go' where b: "applyTypedEdgeSelection ?so ''e'' = (Some ro, so')"
    "currentGraph so' = Some go'"
    and offp: "node_id ?a \<notin> set (activePath (ui go'))
        \<longrightarrow> selectionAt (activeSelections (ui go')) (node_id ?a) = []"
    by blast
  from po b have patho: "activePath (ui go') = [''r'']" by simp
  with offp have "selectionAt (activeSelections (ui go')) ''a'' = []"
    by (simp add: mk_node_def)
  with b patho have 3: "\<exists>r st' g'. applyTypedEdgeSelection ?so ''e'' = (Some r, st')
         \<and> currentGraph st' = Some g' \<and> activePath (ui g') = [''r'']
         \<and> selectionAt (activeSelections (ui g')) ''a'' = []"
    by blast
  from 1 2 3 show ?thesis by blast
qed

text \<open>
  Claim C4 as stated fails in its last part: on a source node that the active path does not
  reach, the result reports the edge as selected, and the rebuild has pruned the selection.
\<close>

theorem C4_counterexample:
  "map_option result_edgeIsSelected (fst (applyTypedEdgeSelection (editor_state off_path) ''e'')) = Some True
   \<and> selectionAt (activeSelections (ui (the (currentGraph
         (snd (applyTypedEdgeSelection (editor_state off_path) ''e'')))))) ''a'' = []"
  by code_simp

section \<open>C1: a second pass of the enforcer\<close>

text \<open>
  On a graph in which no edge carries the id of a node and no node is named \<open>__proto__\<close>, a
  second pass of \<open>enforceGraphConsistency\<close> on the result of a pass that returned returns too
  and yields the same graph: the same nodes with their buttons, the same edges, the same
  \<open>ui.selectedNodeId\<close> and \<open>ui.activePath\<close>, the same selection \<open>ui.activeSelections[k]\<close> for
  every key \<open>k\<close>, and the same graph attributes.
\<close>

lemma enforce_second_pass:
  assumes enf: "enforceGraphConsistency g = Inr g1"
    and D: "\<forall>e \<in> set (edges g). \<not> has_node (nodes g) (edge_id e)"
    and P: "\<not> has_node (nodes g) proto_key"
  shows "\<exists>g2. enforceGraphConsistency g1 = Inr g2
           \<and> nodes g2 = nodes g1 \<and> edges g2 = edges g1
           \<and> selectedNodeId (ui g2) = selectedNodeId (ui g1)
           \<and> activePath (ui g2) = activePath (ui g1)
           \<and> (\<forall>k. obj_get_array (activeSelections (ui g2)) k
                   = obj_get_array (activeSelections (ui g1)) k)
           \<and> graph_id g2 = graph_id g1 \<and> graph_name g2 = graph_name g1
           \<and> graph_version g2 = graph_version g1
           \<and> createdAt g2 = createdAt g1 \<and> updatedAt g2 = updatedAt g1"
proof -
  let ?h = "enforceStructure g"
  let ?ns = "nodes ?h" and ?es = "edges ?h"
  from enf obtain src where
    g1: "g1 = rebuildActivePathFromSelections
            (?h\<lparr>ui := (ui ?h)\<lparr>activeSelections := normalizeSelections ?ns ?es src\<rparr>\<rparr>)"
    by (rule enforce_InrE)
  let ?N1 = "normalizeSelections ?ns ?es src"
  let ?h1 = "?h\<lparr>ui := (ui ?h)\<lparr>activeSelections := ?N1\<rparr>\<rparr>"
  let ?r = "node_id (hd ?ns)"
  let ?P1 = "walk ?ns ?es ?N1 ?r []"
  let ?S1 = "pruneSelections ?ns ?es ?P1 ?N1"
  have ns1: "nodes g1 = ?ns" and es1: "edges g1 = ?es"
    and sel1: "selectedNodeId (ui g1) = selectedNodeId (ui ?h)"
    by (simp_all add: g1 rebuild_frame)
  have fixed: "enforceStructure g1 = g1"
    by (rule enforceStructure_fixed [OF ns1 es1 sel1])
  have P': "\<not> has_node ?ns proto_key"
    using P by (simp add: enforceStructure_simps has_node_enforce)
  have D': "\<forall>e \<in> set ?es. \<not> has_node ?ns (edge_id e)"
  proof
    fix e' assume "e' \<in> set ?es"
    then obtain e where e: "e \<in> set (edges g)" and s: "sanitizeEdge (nodes g) e = Some e'"
      by (auto simp add: enforceStructure_simps map_filter_mem)
    from D e sanitizeEdge_SomeD(3) [OF s] show "\<not> has_node ?ns (edge_id e')"
      by (simp add: enforceStructure_simps has_node_enforce)
  qed
  have second: "enforceGraphConsistency g1 =
      (case sourceSelections g1 of
         Inl err \<Rightarrow> Inl err
       | Inr src2 \<Rightarrow>
           Inr (rebuildActivePathFromSelections
                  (g1\<lparr>ui := (ui g1)\<lparr>activeSelections := normalizeSelections ?ns ?es src2\<rparr>\<rparr>)))"
    unfolding enforceGraphConsistency_def [of g1] Let_def fixed ns1 es1 ..
  show ?thesis
  proof (cases "?ns = [] \<or> ?r = []")
    case True
    then have t: "nodes ?h1 = [] \<or> node_id (hd (nodes ?h1)) = []" by simp
    have u1: "ui g1 = (ui ?h)\<lparr>activeSelections := empty_object, activePath := []\<rparr>"
      unfolding g1 rebuild_simps(1) [OF t] by simp
    have src2: "sourceSelections g1 = Inr empty_object"
      by (simp add: sourceSelections_def getActiveSelections_def u1 hasExplicit_empty
          selections_object_Nil)
    let ?h2 = "g1\<lparr>ui := (ui g1)\<lparr>activeSelections := normalizeSelections ?ns ?es empty_object\<rparr>\<rparr>"
    from True have t2: "nodes ?h2 = [] \<or> node_id (hd (nodes ?h2)) = []"
      by (simp add: ns1)
    have "enforceGraphConsistency g1 = Inr (rebuildActivePathFromSelections ?h2)"
      unfolding second src2 by simp
    then show ?thesis
      unfolding rebuild_simps(1) [OF t2] by (simp add: u1)
  next
    case False
    then have f: "nodes ?h1 \<noteq> []" "node_id (hd (nodes ?h1)) \<noteq> []" by simp_all
    have u1: "ui g1 = (ui ?h)\<lparr>activeSelections := ?S1, activePath := ?P1\<rparr>"
      unfolding g1 rebuild_simps(2) [OF f] by (simp add: getActiveSelections_def)
    let ?N2 = "normalizeSelections ?ns ?es ?S1"
    have "\<exists>src2. sourceSelections g1 = Inr src2 \<and> normalizeSelections ?ns ?es src2 = ?N2"
    proof (cases "hasExplicitSelections ?S1")
      case True
      then show ?thesis
        by (simp add: sourceSelections_def getActiveSelections_def u1)
    next
      case E: False
      have "deriveSelections ?es [] ?P1 = Inr []"
        by (rule derive_no_edges) (rule no_selection_no_edge [OF D' P' E])
      then have "sourceSelections g1 = Inr empty_object"
        using E by (simp add: sourceSelections_def getActiveSelections_def u1 es1
            selections_object_Nil)
      moreover have "normalizeSelections ?ns ?es empty_object = ?N2"
        by (rule normalize_cong)
          (simp add: selectionAt_def get_empty hasExplicit_None [OF E proto_prune [OF P']])
      ultimately show ?thesis by simp
    qed
    then obtain src2 where src2: "sourceSelections g1 = Inr src2"
      and n2: "normalizeSelections ?ns ?es src2 = ?N2" by blast
    let ?h2 = "g1\<lparr>ui := (ui g1)\<lparr>activeSelections := ?N2\<rparr>\<rparr>"
    from False have f2: "nodes ?h2 \<noteq> []" "node_id (hd (nodes ?h2)) \<noteq> []"
      by (simp_all add: ns1)
    have w: "walk ?ns ?es ?N2 ?r [] = ?P1"
      by (rule walk_second [OF D' P'])
    have "enforceGraphConsistency g1 = Inr (rebuildActivePathFromSelections ?h2)"
      unfolding second src2 by (simp add: n2)
    then show ?thesis
      unfolding rebuild_simps(2) [OF f2]
      by (simp add: u1 ns1 es1 getActiveSelections_def w prune_second [OF P'])
  qed
qed

text \<open>
  Claim C1 says that a second pass of \<open>enforceGraphConsistency\<close> yields the same graph as the
  first, for every graph. The code does not do so on two graphs that \<open>normalizeGraph\<close> returns,
  whatever identifiers and times it draws. Loading \<open>id_clash_document\<close> gives a graph, already
  enforced once, with the active path \<open>[a]\<close> and no selection; the next pass returns the same
  nodes and edges and no selection, with the active path \<open>[a, a, b]\<close>: it reads the entry \<open>a\<close>
  of the path as the edge \<open>a\<close>, where the path rebuild reads it as the node. Loading
  \<open>proto_document\<close> gives a graph with the active path \<open>[__proto__, e1, b]\<close>; the next pass
  throws a \<open>TypeError\<close>. The same holds for two passes on the graphs \<open>id_clash\<close> and
  \<open>proto_root\<close>.
\<close>

theorem C1_second_pass_differs:
  "(\<exists>g1 g2. normalizeGraph numstr rnd clock id_clash_document label = Some (Inr g1)
       \<and> enforceGraphConsistency g1 = Inr g2
       \<and> nodes g2 = nodes g1 \<and> edges g2 = edges g1
       \<and> activeSelections (ui g1) = empty_object \<and> activeSelections (ui g2) = empty_object
       \<and> activePath (ui g1) = [''a''] \<and> activePath (ui g2) = [''a'', ''a'', ''b''])
   \<and> (\<exists>g1. normalizeGraph numstr rnd clock proto_document label = Some (Inr g1)
       \<and> activePath (ui g1) = [proto_key, ''e1'', ''b'']
       \<and> enforceGraphConsistency g1 = Inl TypeError)
   \<and> (\<exists>g1 g2. enforceGraphConsistency id_clash = Inr g1 \<and> enforceGraphConsistency g1 = Inr g2
       \<and> activePath (ui g1) = [''a''] \<and> activePath (ui g2) = [''a'', ''a'', ''b''])
   \<and> (\<exists>g1. enforceGraphConsistency proto_root = Inr g1 \<and> enforceGraphConsistency g1 = Inl TypeError)"
proof -
  let ?l = "projr (the (normalizeGraph numstr rnd clock id_clash_document label))"
  let ?p = "projr (the (normalizeGraph numstr rnd clock proto_document label))"
  let ?c = "projr (enforceGraphConsistency id_clash)"
  let ?r = "projr (enforceGraphConsistency proto_root)"
  have 1: "normalizeGraph numstr rnd clock id_clash_document label = Some (Inr ?l)
      \<and> enforceGraphConsistency ?l = Inr (projr (enforceGraphConsistency ?l))
      \<and> nodes (projr (enforceGraphConsistency ?l)) = nodes ?l
      \<and> edges (projr (enforceGraphConsistency ?l)) = edges ?l
      \<and> activeSelections (ui ?l) = empty_object
      \<and> activeSelections (ui (projr (enforceGraphConsistency ?l))) = empty_object
      \<and> activePath (ui ?l) = [''a'']
      \<and> activePath (ui (projr (enforceGraphConsistency ?l))) = [''a'', ''a'', ''b'']"
    by code_simp
  have 2: "normalizeGraph numstr rnd clock proto_document label = Some (Inr ?p)
      \<and> activePath (ui ?p) = [proto_key, ''e1'', ''b'']
      \<and> enforceGraphConsistency ?p = Inl TypeError"
    by code_simp
  have 3: "enforceGraphConsistency id_clash = Inr ?c
      \<and> enforceGraphConsistency ?c = Inr (projr (enforceGraphConsistency ?c))
      \<and> activePath (ui ?c) = [''a'']
      \<and> activePath (ui (projr (enforceGraphConsistency ?c))) = [''a'', ''a'', ''b'']"
    by code_simp
  have 4: "enforceGraphConsistency proto_root = Inr ?r \<and> enforceGraphConsistency ?r = Inl TypeError"
    by code_simp
  from 1 2 3 4 show ?thesis by blast
qed

section \<open>C7: when normalization fails\<close>

text \<open>
  The errors of \<open>normalizeGraph\<close>. A validation error is thrown exactly when one of the four
  checks at the head of the function fails: the root is not an object, \<open>version\<close> is a number
  above the supported version, \<open>nodes\<close> is not an array, or \<open>edges\<close> is not an array. The only
  other exception is a \<open>TypeError\<close>, of the consistency enforcer or of the rendering of a
  node's type.
\<close>

lemma derive_error: "deriveSelections es acc path = Inl err \<Longrightarrow> err = TypeError"
  by (induction path arbitrary: acc) (auto simp add: Let_def split: if_splits option.splits)

lemma enforce_error: "enforceGraphConsistency g = Inl err \<Longrightarrow> err = TypeError"
  by (auto simp add: enforceGraphConsistency_def sourceSelections_def Let_def map_sum_def
      split: sum.splits if_splits dest: derive_error)

lemma normalizeNodes_error:
  "normalizeNodes numstr rnd raws index ns nodeIdSet n = Some (Inl err) \<Longrightarrow> err = TypeError"
proof (induction raws arbitrary: index ns nodeIdSet n)
  case Nil
  then show ?case by simp
next
  case (Cons rawNode rest)
  show ?case
  proof (cases "normalizeNodeType numstr (js_prop rawNode ''type'')")
    case (Inl e)
    then have e: "e = TypeError"
      by (simp add: normalizeNodeType_def split: option.splits)
    from Cons.prems Inl e Cons.IH show ?thesis
      by (auto split: if_splits option.splits prod.splits)
  next
    case (Inr ty)
    from Cons.prems Inr Cons.IH show ?thesis
      by (auto split: if_splits option.splits prod.splits)
  qed
qed

lemma normalizeGraph_error:
  assumes "normalizeGraph numstr rnd clock input label = Some (Inl err)"
  shows "validateRoot input label = Some err \<or> validateRoot input label = None \<and> err = TypeError"
proof (cases "validateRoot input label")
  case (Some e)
  with assms show ?thesis by (simp add: normalizeGraph_def)
next
  case None
  with assms consider g where "enforceGraphConsistency g = Inl err"
    | raws n where "normalizeNodes numstr rnd raws 0 [] [] n = Some (Inl err)"
    by (auto simp add: normalizeGraph_def Let_def split: option.splits prod.splits if_splits sum.splits)
  then show ?thesis
  proof cases
    case 1
    with None show ?thesis by (simp add: enforce_error)
  next
    case 2
    with None show ?thesis by (simp add: normalizeNodes_error)
  qed
qed

lemma validateRoot_cases:
  "validateRoot input label =
     (if \<not> is_object input then Some (ValidationError label RootNotObject)
      else if \<exists>v. js_prop input ''version'' = JNum v \<and> v > 1
        then Some (ValidationError label (UnsupportedVersion (case js_prop input ''version'' of JNum v \<Rightarrow> v)))
      else if \<not> is_array (js_prop input ''nodes'') then Some (ValidationError label NodesNotArray)
      else if \<not> is_array (js_prop input ''edges'') then Some (ValidationError label EdgesNotArray)
      else None)"
  by (cases "js_prop input ''version''") (auto simp add: validateRoot_def GRAPH_VERSION_def)

lemma normalizeGraph_validation:
  "normalizeGraph numstr rnd clock input label = Some (Inl (ValidationError l d))
     \<longleftrightarrow> validateRoot input label = Some (ValidationError l d)"
  using normalizeGraph_error [of numstr rnd clock input label "ValidationError l d"]
  by (auto simp add: normalizeGraph_def)

text \<open>
  Claim C7 says that \<open>normalizeGraph\<close> returns a graph whenever none of the four checks fails.
  On the document \<open>constructor_document\<close> none of them fails, and \<open>normalizeGraph\<close> throws a
  \<open>TypeError\<close>, whatever identifiers and times it draws: the enforcer derives the selections
  from the active path in a plain object, where the entry \<open>constructor\<close> is inherited and is not
  an array.
\<close>

theorem C7_normalize_throws:
  "is_object constructor_document
   \<and> js_prop constructor_document ''version'' = JUndefined
   \<and> is_array (js_prop constructor_document ''nodes'')
   \<and> is_array (js_prop constructor_document ''edges'')
   \<and> normalizeGraph numstr rnd clock constructor_document label = Some (Inl TypeError)"
  by code_simp

section \<open>C3: toggling a choice of an XOR node twice\<close>

text \<open>
  Claim C3, as amended. Take a graph in which edge ids are unique, no edge carries the id of a
  node and no node is named \<open>__proto__\<close>, and an edge \<open>e\<close> with a non-empty id whose source
  node has type XOR and whose target resolves. Toggling \<open>e\<close> twice in succession with
  \<open>applyTypedEdgeSelection\<close> leaves the source node with the selection \<open>[e]\<close> when \<open>e\<close> was its
  sole selection before the first toggle and the node lies on the path the selections derive,
  and with no selection in every other case. So the selection of the source node is restored
  when it was empty or exactly \<open>[e]\<close> before the first toggle.
\<close>

theorem C3_xor_toggle_twice:
  assumes cg: "currentGraph st = Some g"
    and fe: "findEdge g eid = Some e" and ne: "eid \<noteq> []"
    and et: "edge_to e = Some t" and ht: "has_node (nodes g) t" and tt: "trim t \<noteq> []"
    and fn: "findNode g (edge_from e) = Some sn"
    and xor: "normalizeNodeTypeText (node_type sn) = ''xor''"
    and D: "\<forall>e' \<in> set (edges g). \<not> has_node (nodes g) (edge_id e')"
    and P: "\<not> has_node (nodes g) proto_key"
    and U: "distinct (map edge_id (edges g))"
    and on_path:
      "push_unique (\<lambda>x. x \<noteq> []) [] (selectionAt (activeSelections (ui g)) (edge_from e)) = [eid]
       \<Longrightarrow> edge_from e \<in> set (activePath (ui (rebuildActivePathFromSelections g)))"
  shows "\<exists>r1 st1 r2 st2 g2.
           applyTypedEdgeSelection st eid = (Some r1, st1)
           \<and> applyTypedEdgeSelection st1 eid = (Some r2, st2)
           \<and> currentGraph st2 = Some g2
           \<and> selectionAt (activeSelections (ui g2)) (edge_from e) =
               (if push_unique (\<lambda>x. x \<noteq> []) []
                     (selectionAt (activeSelections (ui g)) (edge_from e)) = [eid]
                then [JStr eid] else [])"
proof -
  let ?k = "edge_from e"
  let ?ns = "nodes g" and ?es = "edges g"
  let ?s0 = "activeSelections (ui g)"
  let ?cur0 = "push_unique (\<lambda>x. x \<noteq> []) [] (selectionAt ?s0 ?k)"
  from fe have eid: "edge_id e = eid" and ees: "e \<in> set ?es"
    by (auto simp add: findEdge_def find_Some_iff)
  from fn have sn: "node_id sn = ?k" and sns: "sn \<in> set ?ns"
    by (auto simp add: findNode_def find_Some_iff)
  then have hk: "has_node ?ns ?k" unfolding has_node_def set_map by (metis imageI)
  from sns have nonempty: "?ns \<noteq> []" by auto
  have tgt: "edgeHasTarget e" by (simp add: edgeHasTarget_def et tt)
  have eb: "edgeById ?es eid = Some e"
    using U fe unfolding findEdge_def by (rule edgeById_find)
  let ?g1 = "rebuildActivePathFromSelections
               (g\<lparr>ui := (ui g)\<lparr>activeSelections :=
                  fst (toggleSelection (getActiveSelections g) ''xor'' ?k eid)\<rparr>\<rparr>)"
  from apply_accepts [OF cg fe tgt fn] obtain r1 st1 where
    a1: "applyTypedEdgeSelection st eid = (Some r1, st1)" and c1: "currentGraph st1 = Some ?g1"
    unfolding xor sn eid by blast
  have ns1: "nodes ?g1 = ?ns" and es1: "edges ?g1 = ?es"
    by (simp_all add: rebuild_frame)
  have fe1: "findEdge ?g1 eid = Some e" using fe by (simp add: findEdge_def es1)
  have fn1: "findNode ?g1 (edge_from e) = Some sn" using fn by (simp add: findNode_def ns1)
  let ?g2 = "rebuildActivePathFromSelections
               (?g1\<lparr>ui := (ui ?g1)\<lparr>activeSelections :=
                  fst (toggleSelection (getActiveSelections ?g1) ''xor'' ?k eid)\<rparr>\<rparr>)"
  from apply_accepts [OF c1 fe1 tgt fn1] obtain r2 st2 where
    a2: "applyTypedEdgeSelection st1 eid = (Some r2, st2)" and c2: "currentGraph st2 = Some ?g2"
    unfolding xor sn eid by blast
  have "selectionAt (activeSelections (ui ?g2)) ?k = (if ?cur0 = [eid] then [JStr eid] else [])"
  proof (cases "node_id (hd ?ns) = []")
    case True
    then have "nodes g = [] \<or> node_id (hd (nodes g)) = []" by simp
    from rebuild_simps(1) [OF this] on_path have "?cur0 \<noteq> [eid]" by auto
    moreover
    let ?h = "?g1\<lparr>ui := (ui ?g1)\<lparr>activeSelections :=
                  fst (toggleSelection (getActiveSelections ?g1) ''xor'' ?k eid)\<rparr>\<rparr>"
    from True have "nodes ?h = [] \<or> node_id (hd (nodes ?h)) = []" by (simp add: ns1)
    from rebuild_simps(1) [OF this] have "activeSelections (ui ?g2) = empty_object" by simp
    ultimately show ?thesis by (simp add: selectionAt_empty)
  next
    case False
    let ?r = "node_id (hd ?ns)"
    have g1: "?g1 = g\<lparr>ui := (ui g)\<lparr>activePath :=
                    walk ?ns ?es (fst (toggleSelection ?s0 ''xor'' ?k eid)) ?r [],
                  activeSelections := xorToggled ?ns ?es ?r ?k eid ?s0\<rparr>\<rparr>"
      by (rule toggled_graph [OF nonempty False])
    have s1: "activeSelections (ui ?g1) = xorToggled ?ns ?es ?r ?k eid ?s0"
      unfolding g1 by simp
    from nonempty False have r1: "nodes ?g1 \<noteq> []" "node_id (hd (nodes ?g1)) \<noteq> []"
      by (simp_all add: ns1)
    have s2: "activeSelections (ui ?g2)
        = xorToggled ?ns ?es ?r ?k eid (xorToggled ?ns ?es ?r ?k eid ?s0)"
      unfolding toggled_graph [OF r1] ns1 es1 s1 by simp
    have path: "activePath (ui (rebuildActivePathFromSelections g)) = walk ?ns ?es ?s0 ?r []"
      unfolding rebuild_simps(2) [OF nonempty False] by (simp add: getActiveSelections_def)
    show ?thesis
      unfolding s2
      by (rule xor_twice [OF D P hk ne eb refl et ht]) (use on_path path in simp)
  qed
  with a1 a2 c2 show ?thesis by blast
qed

theorem C3_xor_toggle_twice_witness:
  "selectionAt (activeSelections (ui scenario_A)) ''S'' = [JStr ''e1'']
   \<and> (\<exists>r1 st1 r2 st2 g2.
         applyTypedEdgeSelection (editor_state scenario_A) ''e1'' = (Some r1, st1)
         \<and> applyTypedEdgeSelection st1 ''e1'' = (Some r2, st2)
         \<and> currentGraph st2 = Some g2
         \<and> selectionAt (activeSelections (ui g2)) ''S'' = [JStr ''e1''])"
proof -
  let ?st = "editor_state scenario_A"
  let ?e = "mk_edge ''e1'' ''S'' (Some ''A'') ''b1''"
  let ?S = "mk_node ''S'' ''xor'' []"
  have cg: "currentGraph ?st = Some scenario_A" by (simp add: editor_state_def)
  have fe: "findEdge scenario_A ''e1'' = Some ?e" by code_simp
  have ne: "''e1'' \<noteq> []" by simp
  have et: "edge_to ?e = Some ''A''" by (simp add: mk_edge_def)
  have ht: "has_node (nodes scenario_A) ''A''" by code_simp
  have tt: "trim ''A'' \<noteq> []" by code_simp
  have fn: "findNode scenario_A (edge_from ?e) = Some ?S" by code_simp
  have ty: "normalizeNodeTypeText (node_type ?S) = ''xor''" by code_simp
  have D: "\<forall>e' \<in> set (edges scenario_A). \<not> has_node (nodes scenario_A) (edge_id e')"
    by code_simp
  have P: "\<not> has_node (nodes scenario_A) proto_key" by code_simp
  have U: "distinct (map edge_id (edges scenario_A))" by code_simp
  have k: "edge_from ?e = ''S''" by (simp add: mk_edge_def)
  have prior: "selectionAt (activeSelections (ui scenario_A)) ''S'' = [JStr ''e1'']" by code_simp
  have cur: "push_unique (\<lambda>x. x \<noteq> []) [] (selectionAt (activeSelections (ui scenario_A)) ''S'')
      = [''e1'']"
    by code_simp
  have on_path: "''S'' \<in> set (activePath (ui (rebuildActivePathFromSelections scenario_A)))"
    by code_simp
  from C3_xor_toggle_twice [OF cg fe ne et ht tt fn ty D P U] on_path
  obtain r1 st1 r2 st2 g2 where
    "applyTypedEdgeSelection ?st ''e1'' = (Some r1, st1)"
    "applyTypedEdgeSelection st1 ''e1'' = (Some r2, st2)"
    "currentGraph st2 = Some g2"
    "selectionAt (activeSelections (ui g2)) ''S'' = [JStr ''e1'']"
    unfolding k cur by auto
  with prior show ?thesis by blast
qed

text \<open>
  Claim C3 as stated fails when another choice of the node was selected: in scenario A, with
  \<open>e1\<close> selected at the XOR node S, the first toggle of \<open>e2\<close> replaces the selection by
  \<open>[e2]\<close> and the second one clears it, so S ends with no selection instead of \<open>[e1]\<close>.
\<close>

theorem C3_counterexample:
  "node_type (mk_node ''S'' ''xor'' []) = ''xor''
   \<and> findNode scenario_A ''S'' = Some (mk_node ''S'' ''xor'' [])
   \<and> findEdge scenario_A ''e2'' = Some (mk_edge ''e2'' ''S'' (Some ''B'') ''b2'')
   \<and> has_node (nodes scenario_A) ''B''
   \<and> selectionAt (activeSelections (ui scenario_A)) ''S'' = [JStr ''e1'']
   \<and> map_option result_edgeIsSelected (fst (applyTypedEdgeSelection (editor_state scenario_A) ''e2''))
       = Some True
   \<and> map_option result_edgeIsSelected
         (fst (applyTypedEdgeSelection
                 (snd (applyTypedEdgeSelection (editor_state scenario_A) ''e2'')) ''e2''))
       = Some False
   \<and> selectionAt
         (activeSelections (ui (the (currentGraph
            (snd (applyTypedEdgeSelection
                    (snd (applyTypedEdgeSelection (editor_state scenario_A) ''e2'')) ''e2'')))))) ''S''
       = []"
  by code_simp

end
